theory Spec2Isabelle
  imports Main "HOL-Library.AList" "HOL-Library.Char_ord" "HOL-Library.List_Lexorder"
    "HOL-Library.Product_Lexorder"
begin

section \<open>Data model of the dependency analyser\<close>

text \<open>
  A Python \<open>str\<close> is modelled by the \<open>string\<close> of its UTF-8 bytes. The order on
  them is the lexicographic order of the bytes, which agrees with Python's order by code
  point. Catalogue identifiers and local folder names are strings.
\<close>

type_synonym mod_id = string
type_synonym folder = string

datatype error = ConnectionError | KeyError | TypeError | OverflowError

text \<open>One scraped requirement: the dictionary \<open>{'name', 'url', 'notes'}\<close>. The core
  reads \<open>req['url']\<close> and \<open>req.get('notes', '')\<close>, so the note may be absent.\<close>

record requirement =
  req_name :: string
  req_url :: string
  req_notes :: "string option"

text \<open>The value under the \<open>'timestamp'\<close> key of a cache entry, as
  \<open>_is_cache_entry_valid\<close> meets it (the cache file is JSON that the program loads as it
  is): absent; not a string, on which \<open>datetime.fromisoformat\<close> raises \<open>TypeError\<close>; a
  string that is not an ISO date, on which it raises \<open>ValueError\<close>; a date with a UTC
  offset, which cannot be subtracted from the naive \<open>datetime.now()\<close> (\<open>TypeError\<close>); or a
  naive date, a point in time in microseconds.\<close>

datatype stamp =
  NoTimestamp | NonStringTimestamp | BadTimestamp | AwareTimestamp int | Timestamp int

text \<open>The value under the \<open>'category'\<close> key of a metadata dictionary, as the lookup
  \<open>CATEGORY_PRIORITIES.get(..., 50)\<close> meets it: absent; a string; another hashable value
  (a number, a truth value, null), which is no key of the table; or an unhashable value (a
  list or an object of the cache file), on which the lookup raises \<open>TypeError\<close>.\<close>

datatype category = NoCategory | Category string | OtherCategory | UnhashableCategory

record dependencies =
  requires :: "requirement list option"
  required_by :: "requirement list option"

text \<open>A metadata dictionary. Every key can be absent in an entry that was read back
  from the cache file, which is why the code reads them with \<open>.get\<close> and \<open>in\<close>.\<close>

record mod_data =
  md_name :: "string option"
  md_category :: category
  md_timestamp :: stamp
  md_error :: "string option"
  md_dependencies :: "dependencies option"

text \<open>What one visit of a catalogue page yields inside the \<open>try\<close> block of
  \<open>get_mod_data\<close>: the title element's text if the element is there, the texts of the
  breadcrumb links, and the rows (link text, href, notes cell) of the two requirement
  tables.\<close>

record dep_row =
  link_text :: string
  href :: string
  notes_cell :: "string option"

record scraped =
  title :: "string option"
  breadcrumb :: "string list"
  nexus_requirements :: "dep_row list"
  mods_requiring :: "dep_row list"

text \<open>The world outside the program, indexed by the number of interactions the run has
  had with it so far: the reading of the clock, and the outcome of visiting a URL, which
  is either the text of the exception raised inside the \<open>try\<close> block or the scraped page.
  Nothing is assumed about it: the clock need not be monotone and a page may change from
  one visit to the next. \<open>decimal\<close> is the table of the interpreter's Unicode database
  that says which code points are decimal digits (general category Nd): the characters
  that \<open>\d\<close> of a \<open>str\<close> pattern matches. Nothing is assumed about it either.\<close>

record environment =
  now :: "nat \<Rightarrow> int"
  visit :: "nat \<Rightarrow> string \<Rightarrow> string + scraped"
  decimal :: "nat \<Rightarrow> bool"

record settings =
  CACHE_EXPIRATION_DAYS :: int
  GAME_NAME :: string

definition NEXUS_BASE_URL :: string where
  "NEXUS_BASE_URL = ''https://www.nexusmods.com''"

definition CATEGORY_PRIORITIES :: "string \<rightharpoonup> int" where
  "CATEGORY_PRIORITIES = map_of
     [(''VR'', 10), (''Modders Resources'', 10), (''Utilities'', 10), (''Bug Fixes'', 11),
      (''User Interface'', 15), (''Gameplay'', 20), (''Immersion'', 21), (''Combat'', 25),
      (''Stealth'', 26), (''Skills and Leveling'', 30), (''Magic - Gameplay'', 35),
      (''Races, Classes, and Birthsigns'', 36), (''Guilds/Factions'', 40),
      (''Quests and Adventures'', 50), (''Locations - New'', 51), (''Dungeons'', 52),
      (''Creatures and Mounts'', 55), (''NPC'', 58), (''Followers & Companions'', 59),
      (''Weapons'', 60), (''Armour'', 61), (''Clothing and Accessories'', 62),
      (''Items and Objects - Player'', 65), (''Models and Textures'', 70),
      (''Visuals and Graphics'', 71), (''Environmental'', 72), (''Animation'', 75),
      (''Body, Face, and Hair'', 78), (''Audio'', 80), (''Presets - ENB and ReShade'', 85),
      (''Overhauls'', 90), (''Miscellaneous'', 95), (''Patches'', 99), (''Default'', 50)]"

text \<open>The fields of \<open>ModAnalyzer\<close> that the graph engine reads and writes. \<open>folder_to_id\<close>
  is a dictionary whose iteration order matters, hence an association list;
  \<open>id_to_folders\<close> is only read with \<open>.get(id, [])\<close>. \<open>page\<close> says whether the browser
  page has been initialised, and \<open>tick\<close> counts the interactions with the environment.\<close>

record analyzer =
  settings :: settings
  cache_data :: "mod_id \<rightharpoonup> mod_data"
  ignore_ids :: "mod_id set"
  replacement_map :: "mod_id \<rightharpoonup> mod_id"
  folder_to_id :: "(folder \<times> mod_id) list"
  id_to_folders :: "mod_id \<rightharpoonup> folder list"
  installed_ids :: "mod_id set"
  page :: bool
  tick :: nat

section \<open>Metadata retrieval\<close>

definition day_us :: int where
  "day_us = 86400000000"

text \<open>\<open>timedelta(days=n)\<close> raises \<open>OverflowError\<close> when the magnitude of \<open>n\<close> exceeds
  this number of days.\<close>

definition MAX_DELTA_DAYS :: int where
  "MAX_DELTA_DAYS = 999999999"

text \<open>\<open>_is_cache_entry_valid\<close>. Only \<open>ValueError\<close> is caught, so the \<open>TypeError\<close> of
  \<open>fromisoformat\<close> and of the subtraction, and the \<open>OverflowError\<close> of \<open>timedelta\<close>, leave
  the function. The clock is read only when the timestamp parses.\<close>

definition is_cache_entry_valid ::
  "environment \<Rightarrow> analyzer \<Rightarrow> mod_data \<Rightarrow> error + bool \<times> analyzer" where
  "is_cache_entry_valid env a entry =
     (case md_timestamp entry of
        NoTimestamp \<Rightarrow> Inr (False, a)
      | NonStringTimestamp \<Rightarrow> Inl TypeError
      | BadTimestamp \<Rightarrow> Inr (False, a)
      | AwareTimestamp cache_time \<Rightarrow> Inl TypeError
      | Timestamp cache_time \<Rightarrow>
          if \<bar>CACHE_EXPIRATION_DAYS (settings a)\<bar> > MAX_DELTA_DAYS then Inl OverflowError
          else Inr (now env (tick a) - cache_time < CACHE_EXPIRATION_DAYS (settings a) * day_us,
                    a\<lparr>tick := Suc (tick a)\<rparr>))"

text \<open>The first character of a UTF-8 string, given as the list of its bytes: its code
  point and the number of bytes of its encoding.\<close>

definition continuation :: "nat \<Rightarrow> bool" where
  "continuation b \<longleftrightarrow> 128 \<le> b \<and> b < 192"

fun utf8_head :: "nat list \<Rightarrow> (nat \<times> nat) option" where
  "utf8_head [] = None"
| "utf8_head (b # bs) =
     (if b < 128 then Some (b, 1)
      else if 192 \<le> b \<and> b < 224 then
        (case bs of
           b1 # _ \<Rightarrow>
             if continuation b1 then Some ((b - 192) * 64 + (b1 - 128), 2) else None
         | _ \<Rightarrow> None)
      else if 224 \<le> b \<and> b < 240 then
        (case bs of
           b1 # b2 # _ \<Rightarrow>
             if continuation b1 \<and> continuation b2
             then Some (((b - 224) * 64 + (b1 - 128)) * 64 + (b2 - 128), 3) else None
         | _ \<Rightarrow> None)
      else if 240 \<le> b \<and> b < 248 then
        (case bs of
           b1 # b2 # b3 # _ \<Rightarrow>
             if continuation b1 \<and> continuation b2 \<and> continuation b3
             then Some ((((b - 240) * 64 + (b1 - 128)) * 64 + (b2 - 128)) * 64 + (b3 - 128), 4)
             else None
         | _ \<Rightarrow> None)
      else None)"

lemma utf8_head_Some: "utf8_head bs = Some (cp, n) \<Longrightarrow> 0 < n \<and> 0 < length bs"
  by (cases bs) (auto split: if_splits list.splits)

lemma utf8_head_drop:
  "utf8_head (map f s) = Some (cp, n) \<Longrightarrow> length (drop n s) < length s"
  using utf8_head_Some [of "map f s" cp n] by (cases s) auto

text \<open>What \<open>\d+\<close> matches at the start of a string: the longest run of characters that
  are decimal digits.\<close>

function digit_run :: "environment \<Rightarrow> string \<Rightarrow> string" where
  "digit_run env s =
     (case utf8_head (map of_char s) of
        None \<Rightarrow> []
      | Some (cp, n) \<Rightarrow> if decimal env cp then take n s @ digit_run env (drop n s) else [])"
  by pat_completeness auto

termination
  by (relation "measure (\<lambda>(env, s). length s)") (auto dest: utf8_head_drop)

declare digit_run.simps [simp del]

lemma digit_run_Nil [simp]: "digit_run env [] = []"
  by (subst digit_run.simps) simp

lemma digit_run_Cons:
  "digit_run env (c # cs) =
     (case utf8_head (map of_char (c # cs)) of
        None \<Rightarrow> []
      | Some (cp, n) \<Rightarrow>
          if decimal env cp then take n (c # cs) @ digit_run env (drop n (c # cs)) else [])"
  by (subst digit_run.simps) simp

text \<open>\<open>_extract_mod_id_from_url\<close>: the leftmost match of \<open>/mods/(\d+)\<close>, with the
  longest run of digits.\<close>

fun extract_mod_id_from_url :: "environment \<Rightarrow> string \<Rightarrow> mod_id option" where
  "extract_mod_id_from_url env [] = None"
| "extract_mod_id_from_url env (c # cs) =
     (let ds = digit_run env (drop 6 (c # cs)) in
      if take 6 (c # cs) = ''/mods/'' \<and> ds \<noteq> [] then Some ds
      else extract_mod_id_from_url env cs)"

declare extract_mod_id_from_url.simps [simp del]

text \<open>The inner function \<open>scrape_dep_section\<close>, from the rows of the table on.\<close>

definition scrape_dep_section :: "dep_row list \<Rightarrow> requirement list" where
  "scrape_dep_section rows = map (\<lambda>row.
     \<lparr>req_name = link_text row,
      req_url = (if take 4 (href row) = ''http'' then href row else NEXUS_BASE_URL @ href row),
      req_notes = Some (case notes_cell row of None \<Rightarrow> [] | Some n \<Rightarrow> n)\<rparr>) rows"

definition unknown_mod_name :: string where
  "unknown_mod_name = [CHR 0xE6, CHR 0x9C, CHR 0xAA, CHR 0xE7, CHR 0x9F, CHR 0xA5, CHR 0xE6,
     CHR 0xA8, CHR 0xA1, CHR 0xE7, CHR 0xBB, CHR 0x84, CHR 0xE5, CHR 0x90, CHR 0x8D, CHR 0xE7,
     CHR 0xA7, CHR 0xB0]"

definition fetch_failed_prefix :: string where
  "fetch_failed_prefix = [CHR 0xE6, CHR 0x8A, CHR 0x93, CHR 0xE5, CHR 0x8F, CHR 0x96, CHR 0xE5,
     CHR 0xA4, CHR 0xB1, CHR 0xE8, CHR 0xB4, CHR 0xA5, CHR 0x3A, CHR 0x20, CHR 0x49, CHR 0x44,
     CHR 0x20]"

definition new_entry :: "scraped \<Rightarrow> int \<Rightarrow> mod_data" where
  "new_entry sc t =
     \<lparr>md_name = Some (case title sc of Some n \<Rightarrow> n | None \<Rightarrow> unknown_mod_name),
      md_category = Category (if length (breadcrumb sc) > 1 then last (breadcrumb sc)
                              else ''Default''),
      md_timestamp = Timestamp t,
      md_error = None,
      md_dependencies = Some \<lparr>requires = Some (scrape_dep_section (nexus_requirements sc)),
                              required_by = Some (scrape_dep_section (mods_requiring sc))\<rparr>\<rparr>"

definition error_entry :: "mod_id \<Rightarrow> string \<Rightarrow> mod_data" where
  "error_entry mod_id msg =
     \<lparr>md_name = Some (fetch_failed_prefix @ mod_id),
      md_category = Category ''Default'',
      md_timestamp = NoTimestamp,
      md_error = Some msg,
      md_dependencies = Some \<lparr>requires = None, required_by = None\<rparr>\<rparr>"

definition mod_url :: "analyzer \<Rightarrow> mod_id \<Rightarrow> string" where
  "mod_url a mod_id = NEXUS_BASE_URL @ ''/'' @ GAME_NAME (settings a) @ ''/mods/'' @ mod_id"

text \<open>The part of \<open>get_mod_data\<close> after the cache test: the online fetch. An exception
  inside the \<open>try\<close> block gives the error entry, which is returned and not stored.\<close>

definition fetch_mod_data :: "environment \<Rightarrow> analyzer \<Rightarrow> mod_id \<Rightarrow> error + mod_data \<times> analyzer" where
  "fetch_mod_data env a mod_id =
     (if \<not> page a then Inl ConnectionError
      else
        case visit env (tick a) (mod_url a mod_id) of
          Inr sc \<Rightarrow>
            let entry = new_entry sc (now env (Suc (tick a))) in
            Inr (entry, a\<lparr>cache_data := (cache_data a)(mod_id \<mapsto> entry), tick := tick a + 2\<rparr>)
        | Inl msg \<Rightarrow> Inr (error_entry mod_id msg, a\<lparr>tick := Suc (tick a)\<rparr>))"

definition get_mod_data :: "environment \<Rightarrow> analyzer \<Rightarrow> mod_id \<Rightarrow> error + mod_data \<times> analyzer" where
  "get_mod_data env a mod_id =
     (case cache_data a mod_id of
        None \<Rightarrow> fetch_mod_data env a mod_id
      | Some entry \<Rightarrow>
          (case is_cache_entry_valid env a entry of
             Inl e \<Rightarrow> Inl e
           | Inr (True, a') \<Rightarrow> Inr (entry, a')
           | Inr (False, a') \<Rightarrow> fetch_mod_data env a' mod_id))"

text \<open>The test \<open>mod_id in self.cache_data and self._is_cache_entry_valid(...)\<close> at the
  head of \<open>get_mod_data\<close>: it raises, or it answers and leaves the analyser in a state.\<close>

definition cache_test :: "environment \<Rightarrow> analyzer \<Rightarrow> mod_id \<Rightarrow> error + bool \<times> analyzer" where
  "cache_test env a mod_id =
     (case cache_data a mod_id of None \<Rightarrow> Inr (False, a)
      | Some entry \<Rightarrow> is_cache_entry_valid env a entry)"

text \<open>A cache on which the validity test cannot raise: no entry has a timestamp that is
  not a string or that carries a UTC offset, and the expiry fits a \<open>timedelta\<close>.\<close>

definition readable_stamp :: "stamp \<Rightarrow> bool" where
  "readable_stamp t = (case t of NonStringTimestamp \<Rightarrow> False | AwareTimestamp _ \<Rightarrow> False
                       | _ \<Rightarrow> True)"

definition cache_readable :: "analyzer \<Rightarrow> bool" where
  "cache_readable a \<longleftrightarrow>
     \<bar>CACHE_EXPIRATION_DAYS (settings a)\<bar> \<le> MAX_DELTA_DAYS \<and>
     (\<forall>m d. cache_data a m = Some d \<longrightarrow> readable_stamp (md_timestamp d))"

text \<open>\<open>mod_data.get("dependencies", {}).get("requires", [])\<close>\<close>

definition requires_of :: "mod_data \<Rightarrow> requirement list" where
  "requires_of d =
     (case md_dependencies d of None \<Rightarrow> []
      | Some deps \<Rightarrow> (case requires deps of None \<Rightarrow> [] | Some rs \<Rightarrow> rs))"

section \<open>Rules\<close>

definition get_effective_id :: "analyzer \<Rightarrow> mod_id \<Rightarrow> mod_id" where
  "get_effective_id a required_id =
     (case replacement_map a required_id of None \<Rightarrow> required_id | Some r \<Rightarrow> r)"

definition is_dependency_satisfied :: "analyzer \<Rightarrow> mod_id \<Rightarrow> bool" where
  "is_dependency_satisfied a required_id = (get_effective_id a required_id \<in> installed_ids a)"

section \<open>Example inputs\<close>

definition plain_settings :: settings where
  "plain_settings = \<lparr>CACHE_EXPIRATION_DAYS = 7, GAME_NAME = ''skyrimspecialedition''\<rparr>"

text \<open>An analyser with an initialised page, an empty cache, no rules and no inventory.\<close>

definition bare_analyzer :: analyzer where
  "bare_analyzer = \<lparr>settings = plain_settings, cache_data = Map.empty, ignore_ids = {},
     replacement_map = Map.empty, folder_to_id = [], id_to_folders = Map.empty,
     installed_ids = {}, page = True, tick = 0\<rparr>"

text \<open>An environment in which every page visit raises.\<close>

text \<open>The decimal digits of Unicode 14.0 (the database of CPython 3.11), as ranges of
  code points.\<close>

definition decimal_ranges :: "(nat \<times> nat) list" where
  "decimal_ranges =
    [(48, 57), (1632, 1641), (1776, 1785), (1984, 1993), (2406, 2415), (2534, 2543),
     (2662, 2671), (2790, 2799), (2918, 2927), (3046, 3055), (3174, 3183), (3302, 3311),
     (3430, 3439), (3558, 3567), (3664, 3673), (3792, 3801), (3872, 3881), (4160, 4169),
     (4240, 4249), (6112, 6121), (6160, 6169), (6470, 6479), (6608, 6617), (6784, 6793),
     (6800, 6809), (6992, 7001), (7088, 7097), (7232, 7241), (7248, 7257), (42528, 42537),
     (43216, 43225), (43264, 43273), (43472, 43481), (43504, 43513), (43600, 43609),
     (44016, 44025), (65296, 65305), (66720, 66729), (68912, 68921), (69734, 69743),
     (69872, 69881), (69942, 69951), (70096, 70105), (70384, 70393), (70736, 70745),
     (70864, 70873), (71248, 71257), (71360, 71369), (71472, 71481), (71904, 71913),
     (72016, 72025), (72784, 72793), (73040, 73049), (73120, 73129), (92768, 92777),
     (92864, 92873), (93008, 93017), (120782, 120831), (123200, 123209), (123632, 123641),
     (125264, 125273), (130032, 130041)]"

definition unicode_decimal :: "nat \<Rightarrow> bool" where
  "unicode_decimal cp = list_ex (\<lambda>(lo, hi). lo \<le> cp \<and> cp \<le> hi) decimal_ranges"

definition offline_env :: environment where
  "offline_env = \<lparr>now = (\<lambda>k. 0), visit = (\<lambda>k url. Inl ''timeout''),
     decimal = unicode_decimal\<rparr>"

section \<open>Frame properties of the metadata retrieval\<close>

text \<open>Two analyser states agree on the rules and on the inventory.\<close>

definition same_config :: "analyzer \<Rightarrow> analyzer \<Rightarrow> bool" where
  "same_config a a' \<longleftrightarrow>
     settings a' = settings a \<and> ignore_ids a' = ignore_ids a \<and>
     replacement_map a' = replacement_map a \<and> folder_to_id a' = folder_to_id a \<and>
     id_to_folders a' = id_to_folders a \<and> installed_ids a' = installed_ids a \<and>
     page a' = page a"

lemma same_config_refl [simp]: "same_config a a"
  by (simp add: same_config_def)

lemma same_config_trans: "same_config a b \<Longrightarrow> same_config b c \<Longrightarrow> same_config a c"
  by (simp add: same_config_def)

lemma same_config_effective:
  "same_config a a' \<Longrightarrow> get_effective_id a' x = get_effective_id a x"
  by (simp add: same_config_def get_effective_id_def)

lemma same_config_satisfied:
  "same_config a a' \<Longrightarrow> is_dependency_satisfied a' x = is_dependency_satisfied a x"
  by (simp add: same_config_def is_dependency_satisfied_def get_effective_id_def)

lemma is_cache_entry_valid_config:
  "is_cache_entry_valid env a e = Inr (b, a') \<Longrightarrow>
     same_config a a' \<and> cache_data a' = cache_data a"
  by (auto simp: is_cache_entry_valid_def same_config_def split: stamp.splits if_splits)

lemma is_cache_entry_valid_total:
  "cache_readable a \<Longrightarrow> readable_stamp (md_timestamp e) \<Longrightarrow>
     \<exists>b a'. is_cache_entry_valid env a e = Inr (b, a')"
  by (auto simp: is_cache_entry_valid_def cache_readable_def readable_stamp_def
      split: stamp.splits)

lemma cache_test_config:
  "cache_test env a m = Inr (b, a') \<Longrightarrow> same_config a a' \<and> cache_data a' = cache_data a"
  by (auto simp: cache_test_def split: option.splits dest: is_cache_entry_valid_config)

lemma cache_test_total:
  "cache_readable a \<Longrightarrow> \<exists>b a'. cache_test env a m = Inr (b, a')"
  by (auto simp: cache_test_def cache_readable_def split: option.splits
      intro!: is_cache_entry_valid_total)

text \<open>\<open>get_mod_data\<close> is the cache test followed, on a miss, by the fetch.\<close>

lemma get_mod_data_cases:
  "get_mod_data env a m =
     (case cache_test env a m of
        Inl e \<Rightarrow> Inl e
      | Inr (hit, a1) \<Rightarrow>
          if hit then Inr (the (cache_data a m), a1) else fetch_mod_data env a1 m)"
  by (simp add: get_mod_data_def cache_test_def split: option.splits sum.splits prod.splits
      bool.splits)

lemma cache_readable_config:
  "same_config a a' \<Longrightarrow> cache_data a' = cache_data a \<Longrightarrow> cache_readable a' = cache_readable a"
  by (simp add: cache_readable_def same_config_def)

lemma fetch_mod_data_config:
  "fetch_mod_data env a m = Inr (d, a') \<Longrightarrow> same_config a a'"
  by (auto simp: fetch_mod_data_def same_config_def Let_def split: if_splits sum.splits)

lemma fetch_mod_data_total:
  "page a \<Longrightarrow> \<exists>d a'. fetch_mod_data env a m = Inr (d, a')"
  by (auto simp: fetch_mod_data_def Let_def split: sum.splits)

lemma fetch_mod_data_error:
  "fetch_mod_data env a m = Inl e \<Longrightarrow> \<not> page a \<and> e = ConnectionError"
  by (auto simp: fetch_mod_data_def Let_def split: if_splits sum.splits)

lemma fetch_mod_data_readable:
  "fetch_mod_data env a m = Inr (d, a') \<Longrightarrow> cache_readable a \<Longrightarrow> cache_readable a'"
  by (auto simp: fetch_mod_data_def cache_readable_def Let_def new_entry_def readable_stamp_def
      split: if_splits sum.splits)

lemma get_mod_data_config:
  "get_mod_data env a m = Inr (d, a') \<Longrightarrow> same_config a a'"
  by (auto simp: get_mod_data_cases split: sum.splits prod.splits if_splits
      dest!: cache_test_config fetch_mod_data_config intro: same_config_trans)

lemma get_mod_data_readable:
  assumes "get_mod_data env a m = Inr (d, a')" "cache_readable a"
  shows "cache_readable a'"
proof (cases "cache_test env a m")
  case (Inl e)
  with assms(1) show ?thesis by (simp add: get_mod_data_cases)
next
  case (Inr r)
  obtain hit a1 where r: "r = (hit, a1)" by (cases r)
  from cache_test_config [OF Inr [unfolded r]] assms(2) have r1: "cache_readable a1"
    by (auto simp: cache_readable_def same_config_def)
  show ?thesis
  proof (cases hit)
    case True
    with assms(1) Inr r r1 show ?thesis by (simp add: get_mod_data_cases)
  next
    case False
    with assms(1) Inr r have "fetch_mod_data env a1 m = Inr (d, a')"
      by (simp add: get_mod_data_cases)
    from fetch_mod_data_readable [OF this r1] show ?thesis .
  qed
qed

text \<open>With an initialised page and a readable cache, \<open>get_mod_data\<close> returns.\<close>

lemma get_mod_data_total:
  assumes "page a" "cache_readable a"
  shows "\<exists>d a'. get_mod_data env a m = Inr (d, a')"
proof -
  from cache_test_total [OF assms(2), of env m]
  obtain hit a1 where t: "cache_test env a m = Inr (hit, a1)" by blast
  from cache_test_config [OF t] assms(1) have "page a1"
    by (simp add: same_config_def)
  from fetch_mod_data_total [OF this, of env m] t show ?thesis
    by (cases hit) (auto simp: get_mod_data_cases)
qed

text \<open>The two properties together: what the callers of \<open>get_mod_data\<close> need of the
  analyser for every retrieval to return.\<close>

definition can_retrieve :: "analyzer \<Rightarrow> bool" where
  "can_retrieve a \<longleftrightarrow> page a \<and> cache_readable a"

lemma get_mod_data_can_retrieve:
  "get_mod_data env a m = Inr (d, a') \<Longrightarrow> can_retrieve a \<Longrightarrow> can_retrieve a'"
  unfolding can_retrieve_def
  by (auto dest: get_mod_data_readable get_mod_data_config simp: same_config_def)

lemma get_mod_data_returns:
  "can_retrieve a \<Longrightarrow> \<exists>d a'. get_mod_data env a m = Inr (d, a')"
  unfolding can_retrieve_def by (auto intro: get_mod_data_total)

section \<open>Effective identifiers\<close>



section \<open>The metadata store\<close>







section \<open>The dependency tree of one mod\<close>

datatype status = Satisfied | Missing | Ignored | Cycle

datatype replacement_info = Unset | NoReplacement | Replacement string mod_id

datatype node = Node (node_id: mod_id) (node_name: string) (node_status: status)
  (node_replacement: replacement_info) (node_children: "node list") (node_notes: "string option")

definition cycle_name :: string where
  "cycle_name = [CHR 0xE6, CHR 0xA3, CHR 0x80, CHR 0xE6, CHR 0xB5, CHR 0x8B, CHR 0xE5, CHR 0x88,
     CHR 0xB0, CHR 0xE5, CHR 0xBE, CHR 0xAA, CHR 0xE7, CHR 0x8E, CHR 0xAF, CHR 0xE4, CHR 0xBE,
     CHR 0x9D, CHR 0xE8, CHR 0xB5, CHR 0x96]"

definition name_or :: "mod_data \<Rightarrow> string \<Rightarrow> string" where
  "name_or d dflt = (case md_name d of None \<Rightarrow> dflt | Some n \<Rightarrow> n)"

definition set_notes :: "node \<Rightarrow> string \<Rightarrow> node" where
  "set_notes n s = Node (node_id n) (node_name n) (node_status n) (node_replacement n)
     (node_children n) (Some s)"

definition lookup_replacement ::
  "environment \<Rightarrow> analyzer \<Rightarrow> mod_id \<Rightarrow> mod_id \<Rightarrow> error + replacement_info \<times> analyzer" where
  "lookup_replacement env a mod_id effective_id =
     (if mod_id \<noteq> effective_id then
        (case get_mod_data env a effective_id of
           Inl e \<Rightarrow> Inl e
         | Inr (replacer_data, a') \<Rightarrow>
             Inr (Replacement (name_or replacer_data (''ID '' @ effective_id)) effective_id, a'))
      else Inr (NoReplacement, a))"

definition compute_status :: "analyzer \<Rightarrow> mod_id \<Rightarrow> mod_id \<Rightarrow> status" where
  "compute_status a mod_id effective_id =
     (if mod_id \<in> ignore_ids a then Ignored
      else if effective_id \<in> installed_ids a then Satisfied
      else Missing)"

text \<open>\<open>_build_dependency_tree\<close> and its loop over the requirements. The first argument is
  the number of nested calls of the builder that the recursion limit of the interpreter
  still admits; \<open>None\<close> is the \<open>RecursionError\<close> that CPython raises when a call would
  exceed it, which nothing in the builder catches.\<close>

fun build_dependency_tree ::
    "nat \<Rightarrow> environment \<Rightarrow> analyzer \<Rightarrow> mod_id \<Rightarrow> mod_id set \<Rightarrow> (error + node \<times> analyzer) option"
  and build_children ::
    "nat \<Rightarrow> environment \<Rightarrow> analyzer \<Rightarrow> requirement list \<Rightarrow> mod_id set \<Rightarrow> (error + node list \<times> analyzer) option"
where
  "build_dependency_tree 0 env a mod_id visited_ids = None"
| "build_dependency_tree (Suc n) env a mod_id visited_ids =
     (if mod_id \<in> visited_ids then Some (Inr (Node mod_id cycle_name Cycle Unset [] None, a))
      else
        case get_mod_data env a mod_id of
          Inl e \<Rightarrow> Some (Inl e)
        | Inr (mod_data, a1) \<Rightarrow>
            let name = name_or mod_data (''ID: '' @ mod_id);
                effective_id = get_effective_id a1 mod_id
            in case lookup_replacement env a1 mod_id effective_id of
                 Inl e \<Rightarrow> Some (Inl e)
               | Inr (info, a2) \<Rightarrow>
                   let status = compute_status a2 mod_id effective_id
                   in if status \<in> {Ignored, Cycle} \<or> md_dependencies mod_data = None
                      then Some (Inr (Node mod_id name status info [] None, a2))
                      else case build_children n env a2 (requires_of mod_data)
                                  (insert mod_id visited_ids) of
                             None \<Rightarrow> None
                           | Some (Inl e) \<Rightarrow> Some (Inl e)
                           | Some (Inr (children, a3)) \<Rightarrow>
                               Some (Inr (Node mod_id name status info children None, a3)))"
| "build_children n env a [] visited_ids = Some (Inr ([], a))"
| "build_children n env a (req # reqs) visited_ids =
     (case extract_mod_id_from_url env (req_url req) of
        None \<Rightarrow> build_children n env a reqs visited_ids
      | Some req_id \<Rightarrow>
          (case build_dependency_tree n env a req_id visited_ids of
             None \<Rightarrow> None
           | Some (Inl e) \<Rightarrow> Some (Inl e)
           | Some (Inr (child_node, a1)) \<Rightarrow>
               (case build_children n env a1 reqs visited_ids of
                  None \<Rightarrow> None
                | Some (Inl e) \<Rightarrow> Some (Inl e)
                | Some (Inr (children, a2)) \<Rightarrow>
                    Some (Inr (set_notes child_node
                                 (case req_notes req of None \<Rightarrow> [] | Some s \<Rightarrow> s) # children, a2)))))"


fun nodes_of :: "node \<Rightarrow> node list" where
  "nodes_of (Node i nm st r cs nt) = Node i nm st r cs nt # concat (map nodes_of cs)"

definition req_ids :: "environment \<Rightarrow> requirement list \<Rightarrow> mod_id set" where
  "req_ids env rs = set (List.map_filter (\<lambda>r. extract_mod_id_from_url env (req_url r)) rs)"

lemma lookup_replacement_config:
  "lookup_replacement env a m e = Inr (info, a') \<Longrightarrow> same_config a a'"
  by (auto simp: lookup_replacement_def split: if_splits sum.splits dest: get_mod_data_config)

lemma build_dependency_tree_visited:
  "m \<in> V \<Longrightarrow> build_dependency_tree (Suc n) env a m V =
     Some (Inr (Node m cycle_name Cycle Unset [] None, a))"
  by simp

lemma build_dependency_tree_Suc_result:
  assumes "build_dependency_tree (Suc n) env a m V = Some (Inr (t, a'))" and "m \<notin> V"
  obtains (leaf) d a1 info where
      "get_mod_data env a m = Inr (d, a1)"
      "lookup_replacement env a1 m (get_effective_id a1 m) = Inr (info, a')"
      "compute_status a' m (get_effective_id a1 m) = Ignored \<or> md_dependencies d = None"
      "t = Node m (name_or d (''ID: '' @ m)) (compute_status a' m (get_effective_id a1 m)) info [] None"
  | (inner) d a1 info a2 children where
      "get_mod_data env a m = Inr (d, a1)"
      "lookup_replacement env a1 m (get_effective_id a1 m) = Inr (info, a2)"
      "compute_status a2 m (get_effective_id a1 m) \<noteq> Ignored" "md_dependencies d \<noteq> None"
      "build_children n env a2 (requires_of d) (insert m V) = Some (Inr (children, a'))"
      "t = Node m (name_or d (''ID: '' @ m)) (compute_status a2 m (get_effective_id a1 m)) info
             children None"
  using assms
  by (auto simp: build_dependency_tree.simps(2) Let_def compute_status_def
      split: sum.splits option.splits prod.splits if_splits)

lemma build_children_Cons_result:
  assumes "build_children n env a (req # reqs) V = Some (Inr (cs, a'))"
  shows "(extract_mod_id_from_url env (req_url req) = None \<and>
            build_children n env a reqs V = Some (Inr (cs, a'))) \<or>
         (\<exists>req_id child a1 rest. extract_mod_id_from_url env (req_url req) = Some req_id \<and>
            build_dependency_tree n env a req_id V = Some (Inr (child, a1)) \<and>
            build_children n env a1 reqs V = Some (Inr (rest, a')) \<and>
            cs = set_notes child (case req_notes req of None \<Rightarrow> [] | Some s \<Rightarrow> s) # rest)"
  using assms by (auto split: sum.splits option.splits prod.splits)


definition env_within :: "environment \<Rightarrow> mod_id set \<Rightarrow> bool" where
  "env_within env U \<longleftrightarrow>
     (\<forall>k url sc. visit env k url = Inr sc \<longrightarrow>
        req_ids env (scrape_dep_section (nexus_requirements sc)) \<subseteq> U)"

definition cache_within :: "environment \<Rightarrow> analyzer \<Rightarrow> mod_id set \<Rightarrow> bool" where
  "cache_within env a U \<longleftrightarrow>
     (\<forall>m d. cache_data a m = Some d \<longrightarrow> req_ids env (requires_of d) \<subseteq> U)"

definition ignored_leaf :: "mod_id set \<Rightarrow> node \<Rightarrow> bool" where
  "ignored_leaf ign x \<longleftrightarrow>
     (node_id x \<in> ign \<longrightarrow> node_status x = Ignored \<and> node_children x = [])"

declare build_dependency_tree.simps(2) [simp del]

subsection \<open>What every metadata retrieval preserves, the tree builder preserves\<close>

lemma lookup_replacement_preserves:
  assumes step: "\<And>a m d a'. I a \<Longrightarrow> get_mod_data env a m = Inr (d, a') \<Longrightarrow> I a'"
  shows "I a \<Longrightarrow> lookup_replacement env a m e = Inr (info, a') \<Longrightarrow> I a'"
  by (auto simp: lookup_replacement_def split: if_splits sum.splits dest: step)

lemma build_children_preserves_step:
  assumes tree: "\<And>a m t a'. I a \<Longrightarrow> build_dependency_tree n env a m V = Some (Inr (t, a')) \<Longrightarrow> I a'"
  shows "I a \<Longrightarrow> build_children n env a reqs V = Some (Inr (cs, a')) \<Longrightarrow> I a'"
proof (induction reqs arbitrary: a cs a')
  case Nil
  then show ?case by simp
next
  case (Cons req reqs)
  from build_children_Cons_result [OF Cons.prems(2)] show ?case
  proof (elim disjE conjE exE)
    assume "build_children n env a reqs V = Some (Inr (cs, a'))"
    with Cons.prems(1) show ?thesis by (rule Cons.IH)
  next
    fix req_id child a1 rest
    assume t: "build_dependency_tree n env a req_id V = Some (Inr (child, a1))"
      and r: "build_children n env a1 reqs V = Some (Inr (rest, a'))"
    from tree [OF Cons.prems(1) t] have "I a1" .
    then show ?thesis using r by (rule Cons.IH)
  qed
qed

lemma build_dependency_tree_preserves:
  assumes step: "\<And>a m d a'. I a \<Longrightarrow> get_mod_data env a m = Inr (d, a') \<Longrightarrow> I a'"
  shows "I a \<Longrightarrow> build_dependency_tree n env a m V = Some (Inr (t, a')) \<Longrightarrow> I a'"
proof (induction n arbitrary: a m V t a')
  case 0
  then show ?case by simp
next
  case (Suc n)
  show ?case
  proof (cases "m \<in> V")
    case True
    with Suc.prems show ?thesis by (simp add: build_dependency_tree_visited)
  next
    case False
    from Suc.prems(2) False show ?thesis
    proof (cases rule: build_dependency_tree_Suc_result)
      case (leaf d a1 info)
      from step [OF Suc.prems(1) leaf(1)] have "I a1" .
      then show ?thesis using leaf(2)
        by (rule lookup_replacement_preserves [where I = I, rotated]) (rule step)
    next
      case (inner d a1 info a2 children)
      from step [OF Suc.prems(1) inner(1)] have "I a1" .
      then have "I a2" using inner(2)
        by (rule lookup_replacement_preserves [where I = I, rotated]) (rule step)
      then show ?thesis using inner(5)
        by (rule build_children_preserves_step [rotated]) (rule Suc.IH)
    qed
  qed
qed

lemma build_children_preserves:
  assumes step: "\<And>a m d a'. I a \<Longrightarrow> get_mod_data env a m = Inr (d, a') \<Longrightarrow> I a'"
  shows "I a \<Longrightarrow> build_children n env a reqs V = Some (Inr (cs, a')) \<Longrightarrow> I a'"
  by (erule build_children_preserves_step [rotated], assumption)
     (rule build_dependency_tree_preserves [OF step])

lemma build_dependency_tree_config:
  assumes "build_dependency_tree n env a m V = Some (Inr (t, a'))"
  shows "same_config a a'"
  by (rule build_dependency_tree_preserves [where I = "same_config a", OF _ _ assms])
     (auto dest: get_mod_data_config intro: same_config_trans)

lemma build_children_config:
  assumes "build_children n env a reqs V = Some (Inr (cs, a'))"
  shows "same_config a a'"
  by (rule build_children_preserves [where I = "same_config a", OF _ _ assms])
     (auto dest: get_mod_data_config intro: same_config_trans)

subsection \<open>Ignored identifiers\<close>

lemma nodes_of_set_notes:
  "(\<forall>x\<in>set (nodes_of (set_notes c s)). ignored_leaf ign x) =
   (\<forall>x\<in>set (nodes_of c). ignored_leaf ign x)"
  by (cases c) (simp add: set_notes_def ignored_leaf_def)

lemma compute_status_ignored:
  "compute_status a m e = Ignored \<longleftrightarrow> m \<in> ignore_ids a"
  by (simp add: compute_status_def)

lemma build_children_ignored_step:
  assumes tree: "\<And>a m t a'. build_dependency_tree n env a m V = Some (Inr (t, a')) \<Longrightarrow>
      V \<inter> ignore_ids a = {} \<Longrightarrow> \<forall>x\<in>set (nodes_of t). ignored_leaf (ignore_ids a) x"
  shows "build_children n env a reqs V = Some (Inr (cs, a')) \<Longrightarrow> V \<inter> ignore_ids a = {} \<Longrightarrow>
     \<forall>c\<in>set cs. \<forall>x\<in>set (nodes_of c). ignored_leaf (ignore_ids a) x"
proof (induction reqs arbitrary: a cs a')
  case Nil
  then show ?case by simp
next
  case (Cons req reqs)
  from build_children_Cons_result [OF Cons.prems(1)] show ?case
  proof (elim disjE conjE exE)
    assume "build_children n env a reqs V = Some (Inr (cs, a'))"
    then show ?thesis using Cons.prems(2) by (rule Cons.IH)
  next
    fix req_id child a1 rest
    assume t: "build_dependency_tree n env a req_id V = Some (Inr (child, a1))"
      and r: "build_children n env a1 reqs V = Some (Inr (rest, a'))"
      and cs: "cs = set_notes child (case req_notes req of None \<Rightarrow> [] | Some s \<Rightarrow> s) # rest"
    from build_dependency_tree_config [OF t] have ig: "ignore_ids a1 = ignore_ids a"
      by (simp add: same_config_def)
    from tree [OF t Cons.prems(2)]
    have "\<forall>x\<in>set (nodes_of child). ignored_leaf (ignore_ids a) x" .
    moreover from Cons.IH [OF r] Cons.prems(2) ig
    have "\<forall>c\<in>set rest. \<forall>x\<in>set (nodes_of c). ignored_leaf (ignore_ids a) x" by simp
    ultimately show ?thesis unfolding cs
      by (simp only: set_simps ball_simps nodes_of_set_notes)
  qed
qed

lemma build_dependency_tree_ignored:
  "build_dependency_tree n env a m V = Some (Inr (t, a')) \<Longrightarrow> V \<inter> ignore_ids a = {} \<Longrightarrow>
     \<forall>x\<in>set (nodes_of t). ignored_leaf (ignore_ids a) x"
proof (induction n arbitrary: a m V t a')
  case 0
  then show ?case by simp
next
  case (Suc n)
  show ?case
  proof (cases "m \<in> V")
    case True
    with Suc.prems show ?thesis
      by (auto simp: build_dependency_tree_visited ignored_leaf_def)
  next
    case False
    from Suc.prems(1) False show ?thesis
    proof (cases rule: build_dependency_tree_Suc_result)
      case (leaf d a1 info)
      have "same_config a a'"
        using leaf(1,2) get_mod_data_config lookup_replacement_config same_config_trans by blast
      then have "ignore_ids a' = ignore_ids a" by (simp add: same_config_def)
      with leaf show ?thesis by (simp add: ignored_leaf_def compute_status_def)
    next
      case (inner d a1 info a2 children)
      have "same_config a a2"
        using inner(1,2) get_mod_data_config lookup_replacement_config same_config_trans by blast
      then have ig: "ignore_ids a2 = ignore_ids a" by (simp add: same_config_def)
      with inner(3) have m: "m \<notin> ignore_ids a" by (simp add: compute_status_ignored)
      with Suc.prems(2) ig have dj: "insert m V \<inter> ignore_ids a2 = {}" by simp
      have "\<forall>c\<in>set children. \<forall>x\<in>set (nodes_of c). ignored_leaf (ignore_ids a2) x"
        by (rule build_children_ignored_step [OF _ inner(5) dj]) (rule Suc.IH)
      with m ig show ?thesis unfolding inner(6) by (simp add: ignored_leaf_def)
    qed
  qed
qed


subsection \<open>Example: a catalogue in which every page requires mod 1\<close>

definition page_requiring_1 :: scraped where
  "page_requiring_1 = \<lparr>title = Some ''A'', breadcrumb = [''Mods'', ''Utilities''],
     nexus_requirements = [\<lparr>link_text = ''A'', href = ''/skyrimspecialedition/mods/1'',
                            notes_cell = None\<rparr>],
     mods_requiring = []\<rparr>"

definition env_requiring_1 :: environment where
  "env_requiring_1 = \<lparr>now = (\<lambda>k. 0), visit = (\<lambda>k url. Inr page_requiring_1),
     decimal = unicode_decimal\<rparr>"

text \<open>The node of a result, without the analyser.\<close>

definition tree_of :: "(error + node \<times> analyzer) option \<Rightarrow> (error + node) option" where
  "tree_of r = map_option (map_sum id fst) r"

lemma requires_page_requiring_1:
  "requires_of (new_entry page_requiring_1 t) =
     [\<lparr>req_name = ''A'', req_url = ''https://www.nexusmods.com/skyrimspecialedition/mods/1'',
       req_notes = Some []\<rparr>]"
  by (simp add: requires_of_def new_entry_def page_requiring_1_def scrape_dep_section_def
      NEXUS_BASE_URL_def)

lemma unicode_decimal_ascii: "unicode_decimal 49" "unicode_decimal 50"
  by (simp_all add: unicode_decimal_def decimal_ranges_def)

lemma digit_run_1: "decimal env 49 \<Longrightarrow> digit_run env ''1'' = ''1''"
  by (simp add: digit_run_Cons)

lemma digit_run_2: "decimal env 50 \<Longrightarrow> digit_run env ''2'' = ''2''"
  by (simp add: digit_run_Cons)

lemma extract_url_1:
  "decimal env 49 \<Longrightarrow>
   extract_mod_id_from_url env ''https://www.nexusmods.com/skyrimspecialedition/mods/1''
     = Some ''1''"
  by (simp add: extract_mod_id_from_url.simps digit_run_1)

lemma extract_url_2:
  "decimal env 50 \<Longrightarrow>
   extract_mod_id_from_url env ''https://www.nexusmods.com/skyrimspecialedition/mods/2''
     = Some ''2''"
  by (simp add: extract_mod_id_from_url.simps digit_run_2)

lemma extract_example_url:
  "extract_mod_id_from_url env_requiring_1
     ''https://www.nexusmods.com/skyrimspecialedition/mods/1'' = Some ''1''"
  by (simp add: extract_url_1 unicode_decimal_ascii env_requiring_1_def)

lemma tree_example:
  "tree_of (build_dependency_tree 3 env_requiring_1
      (bare_analyzer\<lparr>ignore_ids := {''1''}, installed_ids := {''1''}\<rparr>) ''2'' {}) =
   Some (Inr (Node ''2'' ''A'' Missing NoReplacement
                [Node ''1'' ''A'' Ignored NoReplacement [] (Some [])] None))"
  by (simp add: tree_of_def numeral_3_eq_3 build_dependency_tree.simps(2) get_mod_data_def
      fetch_mod_data_def env_requiring_1_def bare_analyzer_def Let_def get_effective_id_def
      lookup_replacement_def compute_status_def requires_page_requiring_1 extract_example_url
      name_or_def set_notes_def extract_url_1 unicode_decimal_ascii)
     (simp add: new_entry_def page_requiring_1_def)


subsection \<open>A requirement that is already on the branch\<close>

lemma req_ids_iff:
  "A \<in> req_ids env rs \<longleftrightarrow> (\<exists>r\<in>set rs. extract_mod_id_from_url env (req_url r) = Some A)"
  by (induction rs) (auto simp: req_ids_def map_filter_simps split: option.splits)

lemma build_children_cycle_child:
  "build_children n env a reqs V = Some (Inr (cs, a')) \<Longrightarrow> r \<in> set reqs \<Longrightarrow>
   extract_mod_id_from_url env (req_url r) = Some A \<Longrightarrow> A \<in> V \<Longrightarrow>
   \<exists>c\<in>set cs. node_id c = A \<and> node_status c = Cycle \<and> node_children c = []"
proof (induction reqs arbitrary: a cs a')
  case Nil
  then show ?case by simp
next
  case (Cons req reqs)
  from build_children_Cons_result [OF Cons.prems(1)] show ?case
  proof (elim disjE conjE exE)
    assume none: "extract_mod_id_from_url env (req_url req) = None"
      and rest: "build_children n env a reqs V = Some (Inr (cs, a'))"
    from none Cons.prems(2,3) have "r \<in> set reqs" by auto
    from Cons.IH [OF rest this Cons.prems(3,4)] show ?thesis .
  next
    fix req_id child a1 rest
    assume ex: "extract_mod_id_from_url env (req_url req) = Some req_id"
      and t: "build_dependency_tree n env a req_id V = Some (Inr (child, a1))"
      and r: "build_children n env a1 reqs V = Some (Inr (rest, a'))"
      and cs: "cs = set_notes child (case req_notes req of None \<Rightarrow> [] | Some s \<Rightarrow> s) # rest"
    show ?thesis
    proof (cases "r = req")
      case True
      with ex Cons.prems(3) have id: "req_id = A" by simp
      from t obtain k where n: "n = Suc k" by (cases n) auto
      from t have "child = Node A cycle_name Cycle Unset [] None"
        unfolding n id using Cons.prems(4) by (simp add: build_dependency_tree_visited)
      then show ?thesis unfolding cs by (simp add: set_notes_def)
    next
      case False
      with Cons.prems(2) have "r \<in> set reqs" by simp
      from Cons.IH [OF r this Cons.prems(3,4)] show ?thesis unfolding cs by auto
    qed
  qed
qed

lemma requires_of_no_dependencies: "md_dependencies d = None \<Longrightarrow> requires_of d = []"
  by (simp add: requires_of_def)

lemma build_dependency_tree_self_requirement:
  assumes t: "build_dependency_tree n env a A V = Some (Inr (t, a'))"
    and nv: "A \<notin> V" and ni: "A \<notin> ignore_ids a"
    and g: "get_mod_data env a A = Inr (d, a1)"
    and self: "A \<in> req_ids env (requires_of d)"
  shows "\<exists>c\<in>set (node_children t). node_id c = A \<and> node_status c = Cycle \<and> node_children c = []"
proof -
  from t obtain k where n: "n = Suc k" by (cases n) auto
  from self obtain r where r: "r \<in> set (requires_of d)"
    and ex: "extract_mod_id_from_url env (req_url r) = Some A"
    by (auto simp: req_ids_iff)
  from t [unfolded n] nv show ?thesis
  proof (cases rule: build_dependency_tree_Suc_result)
    case (leaf d' a1' info)
    from leaf(1) g have d: "d' = d" by simp
    have "same_config a a'"
      using leaf(1,2) get_mod_data_config lookup_replacement_config same_config_trans by blast
    then have "ignore_ids a' = ignore_ids a" by (simp add: same_config_def)
    with leaf(3) ni r show ?thesis
      unfolding d by (auto simp: compute_status_ignored requires_of_no_dependencies)
  next
    case (inner d' a1' info a2 children)
    from inner(1) g have d: "d' = d" by simp
    from build_children_cycle_child [OF inner(5) [unfolded d] r ex] show ?thesis
      unfolding inner(6) by simp
  qed
qed


subsection \<open>Termination on a finite universe of identifiers\<close>

lemma requires_of_new_entry [simp]:
  "requires_of (new_entry sc t) = scrape_dep_section (nexus_requirements sc)"
  by (simp add: requires_of_def new_entry_def)

lemma requires_of_error_entry [simp]: "requires_of (error_entry m msg) = []"
  by (simp add: requires_of_def error_entry_def)

lemma req_ids_Nil [simp]: "req_ids env [] = {}"
  by (simp add: req_ids_def map_filter_simps)

lemma fetch_mod_data_within:
  assumes "env_within env U" "cache_within env a U" "fetch_mod_data env a m = Inr (d, a')"
  shows "cache_within env a' U \<and> req_ids env (requires_of d) \<subseteq> U"
  using assms
  by (auto simp: fetch_mod_data_def env_within_def cache_within_def Let_def
      split: if_splits sum.splits) blast+

lemma get_mod_data_within:
  assumes "env_within env U" "cache_within env a U" "get_mod_data env a m = Inr (d, a')"
  shows "cache_within env a' U \<and> req_ids env (requires_of d) \<subseteq> U"
proof (cases "cache_test env a m")
  case (Inl e)
  with assms(3) show ?thesis by (simp add: get_mod_data_cases)
next
  case (Inr r)
  obtain hit a1 where r: "r = (hit, a1)" by (cases r)
  from cache_test_config [OF Inr [unfolded r]] assms(2) have c1: "cache_within env a1 U"
    by (simp add: cache_within_def)
  show ?thesis
  proof (cases hit)
    case True
    with assms(3) Inr r have "d = the (cache_data a m)" "a' = a1"
      by (simp_all add: get_mod_data_cases)
    moreover from True Inr r have "cache_data a m \<noteq> None"
      by (auto simp: cache_test_def split: option.splits)
    ultimately show ?thesis using c1 assms(2) by (auto simp: cache_within_def)
  next
    case False
    with assms(3) Inr r have "fetch_mod_data env a1 m = Inr (d, a')"
      by (simp add: get_mod_data_cases)
    from fetch_mod_data_within [OF assms(1) c1 this] show ?thesis .
  qed
qed

lemma build_dependency_tree_within:
  assumes "env_within env U" "cache_within env a U"
    "build_dependency_tree n env a m V = Some (Inr (t, a'))"
  shows "cache_within env a' U"
  by (rule build_dependency_tree_preserves [where I = "\<lambda>a. cache_within env a U", OF _ assms(2,3)])
     (auto dest: get_mod_data_within [OF assms(1)])

lemma build_children_returns_step:
  assumes env: "env_within env U"
    and tree: "\<And>a m. cache_within env a U \<Longrightarrow> m \<in> U \<Longrightarrow> \<exists>r. build_dependency_tree n env a m V = Some r"
  shows "cache_within env a U \<Longrightarrow> req_ids env reqs \<subseteq> U \<Longrightarrow> \<exists>r. build_children n env a reqs V = Some r"
proof (induction reqs arbitrary: a)
  case Nil
  then show ?case by simp
next
  case (Cons req reqs)
  from Cons.prems(2) have sub: "req_ids env reqs \<subseteq> U"
    by (auto simp: req_ids_iff)
  show ?case
  proof (cases "extract_mod_id_from_url env (req_url req)")
    case None
    with Cons.IH [OF Cons.prems(1) sub] show ?thesis by simp
  next
    case (Some req_id)
    with Cons.prems(2) have "req_id \<in> U" by (auto simp: req_ids_iff)
    from tree [OF Cons.prems(1) this] obtain r where
      r: "build_dependency_tree n env a req_id V = Some r" ..
    show ?thesis
    proof (cases r)
      case (Inl e)
      with Some r show ?thesis by simp
    next
      case (Inr p)
      obtain child a1 where p: "p = (child, a1)" by (cases p)
      from build_dependency_tree_within [OF env Cons.prems(1) r [unfolded Inr p]]
      have "cache_within env a1 U" .
      from Cons.IH [OF this sub] obtain r' where
        "build_children n env a1 reqs V = Some r'" ..
      with Some r Inr p show ?thesis
        by (cases r') (auto split: prod.splits)
    qed
  qed
qed

lemma build_dependency_tree_returns:
  assumes fin: "finite U" and env: "env_within env U"
  shows "cache_within env a U \<Longrightarrow> card (U - V) + (if m \<in> U then 1 else 2) \<le> n \<Longrightarrow>
     \<exists>r. build_dependency_tree n env a m V = Some r"
proof (induction n arbitrary: a m V)
  case 0
  then show ?case by (simp split: if_splits)
next
  case (Suc n)
  show ?case
  proof (cases "m \<in> V")
    case True
    then show ?thesis by (simp add: build_dependency_tree_visited)
  next
    case False
    show ?thesis
    proof (cases "get_mod_data env a m")
      case (Inl e)
      with False show ?thesis by (simp add: build_dependency_tree.simps(2))
    next
      case (Inr p)
      obtain d a1 where p: "p = (d, a1)" by (cases p)
      from get_mod_data_within [OF env Suc.prems(1) Inr [unfolded p]]
      have c1: "cache_within env a1 U" and ds: "req_ids env (requires_of d) \<subseteq> U" by simp_all
      show ?thesis
      proof (cases "lookup_replacement env a1 m (get_effective_id a1 m)")
        case (Inl e)
        with False Inr p show ?thesis by (simp add: build_dependency_tree.simps(2))
      next
        case lr: (Inr q)
        obtain info a2 where q: "q = (info, a2)" by (cases q)
        have c2: "cache_within env a2 U"
          by (rule lookup_replacement_preserves [where I = "\<lambda>a. cache_within env a U",
                OF _ c1 lr [unfolded q]])
             (auto dest: get_mod_data_within [OF env])
        have bound: "card (U - insert m V) + 1 \<le> n"
        proof (cases "m \<in> U")
          case True
          with False fin have "card (U - insert m V) < card (U - V)"
            by (intro psubset_card_mono) auto
          with Suc.prems(2) True show ?thesis by simp
        next
          case False
          then have "U - insert m V = U - V" by auto
          with Suc.prems(2) False show ?thesis by simp
        qed
        have "\<exists>r. build_children n env a2 (requires_of d) (insert m V) = Some r"
        proof (rule build_children_returns_step [OF env _ c2 ds])
          fix b k assume "cache_within env b U" "k \<in> U"
          then show "\<exists>r. build_dependency_tree n env b k (insert m V) = Some r"
            using bound by (intro Suc.IH) simp_all
        qed
        then obtain r where "build_children n env a2 (requires_of d) (insert m V) = Some r" ..
        with False Inr p lr q show ?thesis
          by (cases r) (auto simp: build_dependency_tree.simps(2) Let_def split: prod.splits)
      qed
    qed
  qed
qed

subsection \<open>More fuel does not change a result\<close>

lemma build_children_fuel_step:
  assumes tree: "\<And>a m r. build_dependency_tree n env a m V = Some r \<Longrightarrow>
      build_dependency_tree (Suc n) env a m V = Some r"
  shows "build_children n env a reqs V = Some r \<Longrightarrow> build_children (Suc n) env a reqs V = Some r"
proof (induction reqs arbitrary: a r)
  case Nil
  then show ?case by simp
next
  case (Cons req reqs)
  show ?case
  proof (cases "extract_mod_id_from_url env (req_url req)")
    case None
    with Cons show ?thesis by simp
  next
    case (Some req_id)
    from Cons.prems Some obtain r1 where
      r1: "build_dependency_tree n env a req_id V = Some r1"
      by (cases "build_dependency_tree n env a req_id V") auto
    note r1' = tree [OF r1]
    show ?thesis
    proof (cases r1)
      case (Inl e)
      with Cons.prems Some r1 r1' show ?thesis by simp
    next
      case (Inr p)
      obtain child a1 where p: "p = (child, a1)" by (cases p)
      from Cons.prems Some r1 Inr p obtain r2 where
        r2: "build_children n env a1 reqs V = Some r2"
        by (cases "build_children n env a1 reqs V") auto
      from Cons.IH [OF r2] Cons.prems Some r1 r1' Inr p r2 show ?thesis by simp
    qed
  qed
qed

lemma build_dependency_tree_fuel_Suc:
  "build_dependency_tree n env a m V = Some r \<Longrightarrow> build_dependency_tree (Suc n) env a m V = Some r"
proof (induction n arbitrary: a m V r)
  case 0
  then show ?case by simp
next
  case (Suc n)
  show ?case
  proof (cases "m \<in> V")
    case True
    with Suc.prems show ?thesis by (simp add: build_dependency_tree_visited)
  next
    case False
    have step: "\<And>a reqs r. build_children n env a reqs (insert m V) = Some r \<Longrightarrow>
        build_children (Suc n) env a reqs (insert m V) = Some r"
      by (rule build_children_fuel_step) (rule Suc.IH)
    from Suc.prems False show ?thesis
      by (subst build_dependency_tree.simps(2), subst (asm) build_dependency_tree.simps(2))
         (auto simp: Let_def split: sum.splits prod.splits option.splits if_splits
           dest!: step)
  qed
qed

lemma build_dependency_tree_fuel_mono:
  "n \<le> n' \<Longrightarrow> build_dependency_tree n env a m V = Some r \<Longrightarrow>
   build_dependency_tree n' env a m V = Some r"
  by (induction n' rule: dec_induct) (auto intro: build_dependency_tree_fuel_Suc)


subsection \<open>The claims about the tree builder\<close>

lemma tree_of_Inr:
  assumes "tree_of r = Some (Inr t)"
  shows "\<exists>a'. r = Some (Inr (t, a'))"
proof (cases r)
  case None
  with assms show ?thesis by (simp add: tree_of_def)
next
  case (Some x)
  with assms show ?thesis by (cases x) (auto simp: tree_of_def)
qed

lemma env_requiring_1_within: "env_within env_requiring_1 {''1''}"
  using requires_page_requiring_1 [of 0] extract_example_url
  by (auto simp: env_within_def env_requiring_1_def req_ids_iff)

lemma self_requiring_example:
  "build_dependency_tree 3 env_requiring_1 bare_analyzer ''1'' {} =
     Some (Inr (Node ''1'' ''A'' Missing NoReplacement
                  [Node ''1'' cycle_name Cycle Unset [] (Some [])] None,
                bare_analyzer\<lparr>cache_data := [''1'' \<mapsto> new_entry page_requiring_1 0],
                               tick := 2\<rparr>))"
  by (simp add: numeral_3_eq_3 numeral_2_eq_2 build_dependency_tree.simps(2) get_mod_data_def
      fetch_mod_data_def env_requiring_1_def bare_analyzer_def Let_def get_effective_id_def
      lookup_replacement_def compute_status_def extract_example_url
      name_or_def set_notes_def extract_url_1 unicode_decimal_ascii new_entry_def page_requiring_1_def
      scrape_dep_section_def NEXUS_BASE_URL_def requires_of_def)

lemma get_mod_data_example:
  "get_mod_data env_requiring_1 bare_analyzer ''1'' =
     Inr (new_entry page_requiring_1 0,
          bare_analyzer\<lparr>cache_data := [''1'' \<mapsto> new_entry page_requiring_1 0], tick := 2\<rparr>)"
  by (simp add: get_mod_data_def fetch_mod_data_def env_requiring_1_def bare_analyzer_def
      Let_def numeral_2_eq_2)

text \<open>
  Claim C8. In a tree built from a root (with the empty set of visited identifiers, as
  \<open>analyze_single_mod_dependencies\<close> calls the builder), every node whose identifier is in
  the ignore set has status \<open>ignored\<close> and no children, whatever the inventory and
  whatever requirements its metadata lists.
\<close>

theorem ignored_ids_yield_ignored_leaves:
  assumes "build_dependency_tree n env a root {} = Some (Inr (t, a'))"
    and "x \<in> set (nodes_of t)" and "node_id x \<in> ignore_ids a"
  shows "node_status x = Ignored \<and> node_children x = []"
  using build_dependency_tree_ignored [OF assms(1)] assms(2,3)
  by (simp add: ignored_leaf_def)

theorem ignored_ids_yield_ignored_leaves_witness:
  "tree_of (build_dependency_tree 3 env_requiring_1
      (bare_analyzer\<lparr>ignore_ids := {''1''}, installed_ids := {''1''}\<rparr>) ''2'' {}) =
   Some (Inr (Node ''2'' ''A'' Missing NoReplacement
                [Node ''1'' ''A'' Ignored NoReplacement [] (Some [])] None)) \<and>
   ''1'' \<in> ignore_ids (bare_analyzer\<lparr>ignore_ids := {''1''}, installed_ids := {''1''}\<rparr>) \<and>
   ''1'' \<in> installed_ids (bare_analyzer\<lparr>ignore_ids := {''1''}, installed_ids := {''1''}\<rparr>) \<and>
   ''1'' \<in> req_ids env_requiring_1 (requires_of (new_entry page_requiring_1 0)) \<and>
   node_status (Node ''1'' ''A'' Ignored NoReplacement [] (Some [])) = Ignored \<and>
   node_children (Node ''1'' ''A'' Ignored NoReplacement [] (Some [])) = []"
proof -
  let ?a = "bare_analyzer\<lparr>ignore_ids := {''1''}, installed_ids := {''1''}\<rparr>"
  let ?c = "Node ''1'' ''A'' Ignored NoReplacement [] (Some [])"
  let ?t = "Node ''2'' ''A'' Missing NoReplacement [?c] None"
  from tree_of_Inr [OF tree_example] obtain a' where
    r: "build_dependency_tree 3 env_requiring_1 ?a ''2'' {} = Some (Inr (?t, a'))" ..
  have "node_status ?c = Ignored \<and> node_children ?c = []"
    by (rule ignored_ids_yield_ignored_leaves [OF r]) simp_all
  moreover have "''1'' \<in> req_ids env_requiring_1 (requires_of (new_entry page_requiring_1 0))"
    using requires_page_requiring_1 [of 0] extract_example_url by (simp add: req_ids_iff)
  ultimately show ?thesis using tree_example by simp
qed

text \<open>
  Claim C5, as the code has it. On a finite universe of identifiers (every requirement a
  page can list and every requirement in the cache lies in a finite set \<open>U\<close>), the
  recursion of the tree builder never nests deeper than \<open>card U + 2\<close> calls: whenever the
  interpreter admits that many nested calls the builder returns, without a
  \<open>RecursionError\<close> and always with the same result. A call for an identifier that is already on the branch returns a childless
  \<open>cycle\<close> node at once. And when the metadata of \<open>A\<close> lists \<open>A\<close> itself, \<open>A\<close> is not on
  the branch yet and \<open>A\<close> is not ignored, the node built for \<open>A\<close> has a child for \<open>A\<close>
  with status \<open>cycle\<close> and no children. (An ignored \<open>A\<close> is a leaf: it has no child.)
\<close>

theorem build_dependency_tree_terminates_marks_cycle:
  "(finite U \<and> env_within env U \<and> cache_within env a U \<longrightarrow>
      (\<exists>r. \<forall>n\<ge>card U + 2. build_dependency_tree n env a root V = Some r)) \<and>
   (A \<in> V \<longrightarrow>
      build_dependency_tree (Suc k) env a A V = Some (Inr (Node A cycle_name Cycle Unset [] None, a))) \<and>
   (A \<notin> W \<and> A \<notin> ignore_ids a \<and> get_mod_data env a A = Inr (d, a1) \<and>
    A \<in> req_ids env (requires_of d) \<and> build_dependency_tree m env a A W = Some (Inr (t, a')) \<longrightarrow>
      (\<exists>c\<in>set (node_children t). node_id c = A \<and> node_status c = Cycle \<and> node_children c = []))"
proof (intro conjI impI)
  assume h: "finite U \<and> env_within env U \<and> cache_within env a U"
  then have "card (U - V) \<le> card U" by (intro card_mono) auto
  then have "card (U - V) + (if root \<in> U then 1 else 2) \<le> card U + 2" by simp
  from build_dependency_tree_returns [OF _ _ _ this, of env a] h obtain r where
    r: "build_dependency_tree (card U + 2) env a root V = Some r" by blast
  have "\<forall>n\<ge>card U + 2. build_dependency_tree n env a root V = Some r"
    using build_dependency_tree_fuel_mono [OF _ r] by blast
  then show "\<exists>r. \<forall>n\<ge>card U + 2. build_dependency_tree n env a root V = Some r" ..
next
  assume "A \<in> V"
  then show "build_dependency_tree (Suc k) env a A V =
      Some (Inr (Node A cycle_name Cycle Unset [] None, a))"
    by (rule build_dependency_tree_visited)
next
  assume "A \<notin> W \<and> A \<notin> ignore_ids a \<and> get_mod_data env a A = Inr (d, a1) \<and>
    A \<in> req_ids env (requires_of d) \<and> build_dependency_tree m env a A W = Some (Inr (t, a'))"
  then show "\<exists>c\<in>set (node_children t). node_id c = A \<and> node_status c = Cycle \<and> node_children c = []"
    using build_dependency_tree_self_requirement by blast
qed

theorem build_dependency_tree_terminates_marks_cycle_witness:
  "finite {''1''} \<and> env_within env_requiring_1 {''1''} \<and> cache_within env_requiring_1 bare_analyzer {''1''} \<and>
   build_dependency_tree 4 env_requiring_1 bare_analyzer ''1'' {} =
     build_dependency_tree 3 env_requiring_1 bare_analyzer ''1'' {} \<and>
   build_dependency_tree 3 env_requiring_1 bare_analyzer ''1'' {} =
     Some (Inr (Node ''1'' ''A'' Missing NoReplacement
                  [Node ''1'' cycle_name Cycle Unset [] (Some [])] None,
                bare_analyzer\<lparr>cache_data := [''1'' \<mapsto> new_entry page_requiring_1 0],
                               tick := 2\<rparr>)) \<and>
   ''1'' \<notin> ignore_ids bare_analyzer \<and>
   ''1'' \<in> req_ids env_requiring_1 (requires_of (new_entry page_requiring_1 0)) \<and>
   build_dependency_tree (Suc 0) env_requiring_1 bare_analyzer ''1'' {''1''} =
     Some (Inr (Node ''1'' cycle_name Cycle Unset [] None, bare_analyzer))"
proof -
  let ?t = "Node ''1'' ''A'' Missing NoReplacement
              [Node ''1'' cycle_name Cycle Unset [] (Some [])] None"
  let ?a' = "bare_analyzer\<lparr>cache_data := [''1'' \<mapsto> new_entry page_requiring_1 0], tick := 2\<rparr>"
  have fin: "finite {''1''}" by simp
  have cw: "cache_within env_requiring_1 bare_analyzer {''1''}"
    by (simp add: cache_within_def bare_analyzer_def)
  have ni: "''1'' \<notin> ignore_ids bare_analyzer" by (simp add: bare_analyzer_def)
  have self: "''1'' \<in> req_ids env_requiring_1 (requires_of (new_entry page_requiring_1 0))"
    using requires_page_requiring_1 [of 0] extract_example_url by (simp add: req_ids_iff)
  note inst1 = build_dependency_tree_terminates_marks_cycle
    [where U = "{''1''}" and env = env_requiring_1 and a = bare_analyzer and root = "''1''"
       and V = "{}" and A = "''1''" and W = "{}" and d = "new_entry page_requiring_1 0"
       and ?a1.0 = ?a' and m = 3 and t = ?t and a' = ?a']
  note inst2 = build_dependency_tree_terminates_marks_cycle
    [where a = bare_analyzer and env = env_requiring_1 and V = "{''1''}" and A = "''1''" and k = 0]
  from inst1 fin env_requiring_1_within cw obtain r where
    r: "\<forall>n\<ge>3. build_dependency_tree n env_requiring_1 bare_analyzer ''1'' {} = Some r"
    by (auto simp: numeral_3_eq_3)
  then have "build_dependency_tree 4 env_requiring_1 bare_analyzer ''1'' {} =
     build_dependency_tree 3 env_requiring_1 bare_analyzer ''1'' {}" by simp
  moreover from inst2 have "build_dependency_tree (Suc 0) env_requiring_1 bare_analyzer ''1'' {''1''} =
     Some (Inr (Node ''1'' cycle_name Cycle Unset [] None, bare_analyzer))" by simp
  moreover from inst1 ni self get_mod_data_example self_requiring_example
  have "\<exists>c\<in>set (node_children ?t). node_id c = ''1'' \<and> node_status c = Cycle \<and> node_children c = []"
    by blast
  ultimately show ?thesis
    using fin env_requiring_1_within cw ni self self_requiring_example by simp
qed

theorem ignored_self_requirement_has_no_child:
  "''1'' \<in> req_ids env_requiring_1 (requires_of (new_entry page_requiring_1 0)) \<and>
   get_mod_data env_requiring_1 (bare_analyzer\<lparr>ignore_ids := {''1''}\<rparr>) ''1'' =
     Inr (new_entry page_requiring_1 0,
          bare_analyzer\<lparr>ignore_ids := {''1''},
            cache_data := [''1'' \<mapsto> new_entry page_requiring_1 0], tick := 2\<rparr>) \<and>
   tree_of (build_dependency_tree 3 env_requiring_1 (bare_analyzer\<lparr>ignore_ids := {''1''}\<rparr>)
      ''1'' {}) = Some (Inr (Node ''1'' ''A'' Ignored NoReplacement [] None))"
proof -
  have "''1'' \<in> req_ids env_requiring_1 (requires_of (new_entry page_requiring_1 0))"
    using requires_page_requiring_1 [of 0] extract_example_url by (simp add: req_ids_iff)
  moreover have "get_mod_data env_requiring_1 (bare_analyzer\<lparr>ignore_ids := {''1''}\<rparr>) ''1'' =
     Inr (new_entry page_requiring_1 0,
          bare_analyzer\<lparr>ignore_ids := {''1''},
            cache_data := [''1'' \<mapsto> new_entry page_requiring_1 0], tick := 2\<rparr>)"
    by (simp add: get_mod_data_def fetch_mod_data_def env_requiring_1_def bare_analyzer_def
        Let_def numeral_2_eq_2)
  moreover have "tree_of (build_dependency_tree 3 env_requiring_1
      (bare_analyzer\<lparr>ignore_ids := {''1''}\<rparr>) ''1'' {}) =
      Some (Inr (Node ''1'' ''A'' Ignored NoReplacement [] None))"
    by (simp add: tree_of_def numeral_3_eq_3 build_dependency_tree.simps(2) get_mod_data_def
      fetch_mod_data_def env_requiring_1_def bare_analyzer_def Let_def get_effective_id_def
      lookup_replacement_def compute_status_def name_or_def new_entry_def page_requiring_1_def)
  ultimately show ?thesis by simp
qed


section \<open>The dependency network and the missing requirements\<close>

text \<open>An edge \<open>{'id': ..., 'notes': ...}\<close> of the forward or reverse adjacency map. The maps
  are \<open>defaultdict(list)\<close>s: association lists in insertion order, read with
  \<open>.get(key, [])\<close>.\<close>

record edge_info =
  edge_id :: mod_id
  edge_notes :: string

type_synonym dep_graph = "(mod_id \<times> edge_info list) list"

definition graph_get :: "('k \<times> 'v list) list \<Rightarrow> 'k \<Rightarrow> 'v list" where
  "graph_get g k = (case map_of g k of None \<Rightarrow> [] | Some es \<Rightarrow> es)"

text \<open>\<open>graph[k].append(e)\<close> on a \<open>defaultdict(list)\<close>.\<close>

definition graph_append :: "('k \<times> 'v list) list \<Rightarrow> 'k \<Rightarrow> 'v \<Rightarrow> ('k \<times> 'v list) list" where
  "graph_append g k e = AList.update k (graph_get g k @ [e]) g"

record report_entry =
  re_name :: string
  required_by_installed :: "(folder \<times> string) list"
  required_by_missing :: "(string \<times> mod_id) list"
  re_effective_id :: mod_id
  re_effective_name :: "string option"

text \<open>The inner loop of \<open>_identify_missing_dependencies\<close> over the reverse edges of one
  unmet identifier.\<close>

fun collect_requirers ::
  "environment \<Rightarrow> mod_id set \<Rightarrow> edge_info list \<Rightarrow> (folder \<times> string) list \<Rightarrow>
   (string \<times> mod_id) set \<Rightarrow> analyzer \<Rightarrow>
   error + ((folder \<times> string) list \<times> (string \<times> mod_id) set) \<times> analyzer" where
  "collect_requirers env unmet [] req_by_installed req_by_missing a =
     Inr ((req_by_installed, req_by_missing), a)"
| "collect_requirers env unmet (req_info # rest) req_by_installed req_by_missing a =
     (let req_by_id = edge_id req_info; notes = edge_notes req_info in
      if req_by_id \<in> installed_ids a then
        collect_requirers env unmet rest
          (req_by_installed @
             map (\<lambda>folder_name. (folder_name, notes))
               (case id_to_folders a req_by_id of None \<Rightarrow> [] | Some fs \<Rightarrow> fs))
          req_by_missing a
      else if get_effective_id a req_by_id \<in> unmet then
        (case get_mod_data env a req_by_id of
           Inl e \<Rightarrow> Inl e
         | Inr (d, a') \<Rightarrow>
             collect_requirers env unmet rest req_by_installed
               (insert (name_or d (''ID '' @ req_by_id), req_by_id) req_by_missing) a')
      else collect_requirers env unmet rest req_by_installed req_by_missing a)"

text \<open>The body of the outer loop: the report entry of one unmet identifier.\<close>

definition report_for ::
  "environment \<Rightarrow> mod_id set \<Rightarrow> dep_graph \<Rightarrow> mod_id \<Rightarrow> analyzer \<Rightarrow>
   error + report_entry \<times> analyzer" where
  "report_for env unmet reverse_graph unmet_id a =
     (case collect_requirers env unmet (graph_get reverse_graph unmet_id) [] {} a of
        Inl e \<Rightarrow> Inl e
      | Inr ((req_by_installed, req_by_missing), a1) \<Rightarrow>
          let effective_id = get_effective_id a1 unmet_id in
          (case get_mod_data env a1 unmet_id of
             Inl e \<Rightarrow> Inl e
           | Inr (d, a2) \<Rightarrow>
               let report_entry =
                     \<lparr>re_name = name_or d (''ID '' @ unmet_id),
                      required_by_installed = sort_key fst req_by_installed,
                      required_by_missing = sorted_list_of_set req_by_missing,
                      re_effective_id = effective_id,
                      re_effective_name = None\<rparr>
               in if unmet_id \<noteq> effective_id then
                    (case get_mod_data env a2 effective_id of
                       Inl e \<Rightarrow> Inl e
                     | Inr (ed, a3) \<Rightarrow>
                         Inr (report_entry\<lparr>re_effective_name :=
                                Some (name_or ed (''ID '' @ effective_id))\<rparr>, a3))
                  else Inr (report_entry, a2)))"

fun build_missing_report ::
  "environment \<Rightarrow> mod_id set \<Rightarrow> dep_graph \<Rightarrow> mod_id list \<Rightarrow> (mod_id \<times> report_entry) list \<Rightarrow>
   analyzer \<Rightarrow> error + (mod_id \<times> report_entry) list \<times> analyzer" where
  "build_missing_report env unmet reverse_graph [] missing_report a = Inr (missing_report, a)"
| "build_missing_report env unmet reverse_graph (unmet_id # rest) missing_report a =
     (case report_for env unmet reverse_graph unmet_id a of
        Inl e \<Rightarrow> Inl e
      | Inr (report_entry, a') \<Rightarrow>
          build_missing_report env unmet reverse_graph rest
            (AList.update unmet_id report_entry missing_report) a')"

definition unmet_dependencies :: "analyzer \<Rightarrow> mod_id set \<Rightarrow> mod_id set" where
  "unmet_dependencies a all_nodes =
     Set.filter (\<lambda>nid. \<not> is_dependency_satisfied a nid \<and> nid \<notin> ignore_ids a) all_nodes"

definition identify_missing_dependencies ::
  "environment \<Rightarrow> analyzer \<Rightarrow> mod_id set \<Rightarrow> dep_graph \<Rightarrow>
   error + (mod_id \<times> report_entry) list \<times> analyzer" where
  "identify_missing_dependencies env a all_nodes reverse_graph =
     (let unmet = unmet_dependencies a all_nodes in
      if unmet = {} then Inr ([], a)
      else build_missing_report env unmet reverse_graph (sorted_list_of_set unmet) [] a)"


subsection \<open>The rules and the inventory are left alone; when every retrieval returns, nothing raises\<close>

lemma collect_requirers_config:
  "collect_requirers env unmet es ri rm a = Inr (r, a') \<Longrightarrow> same_config a a'"
proof (induction es arbitrary: ri rm a)
  case Nil
  then show ?case by simp
next
  case (Cons e es)
  then show ?case
    by (auto simp: Let_def split: if_splits sum.splits
        dest!: get_mod_data_config intro: same_config_trans)
qed

lemma collect_requirers_can_retrieve:
  "collect_requirers env unmet es ri rm a = Inr (r, a') \<Longrightarrow> can_retrieve a \<Longrightarrow>
     can_retrieve a'"
proof (induction es arbitrary: ri rm a)
  case Nil
  then show ?case by simp
next
  case (Cons e es)
  then show ?case
    by (auto simp: Let_def split: if_splits sum.splits dest: get_mod_data_can_retrieve)
qed

lemma collect_requirers_total:
  "can_retrieve a \<Longrightarrow> \<exists>r a'. collect_requirers env unmet es ri rm a = Inr (r, a')"
proof (induction es arbitrary: ri rm a)
  case Nil
  then show ?case by simp
next
  case (Cons e es)
  show ?case
  proof (cases "edge_id e \<in> installed_ids a \<or> get_effective_id a (edge_id e) \<notin> unmet")
    case True
    with Cons.IH [OF Cons.prems] show ?thesis by (auto simp: Let_def)
  next
    case False
    from get_mod_data_returns [OF Cons.prems] obtain d a1 where
      g: "get_mod_data env a (edge_id e) = Inr (d, a1)" by blast
    from get_mod_data_can_retrieve [OF g Cons.prems] have "can_retrieve a1" .
    from Cons.IH [OF this] False g show ?thesis by (simp add: Let_def)
  qed
qed

lemma report_for_config:
  "report_for env unmet rg k a = Inr (r, a') \<Longrightarrow> same_config a a'"
  by (auto simp: report_for_def Let_def split: sum.splits prod.splits if_splits
      dest!: get_mod_data_config collect_requirers_config intro: same_config_trans)

lemma report_for_can_retrieve:
  "report_for env unmet rg k a = Inr (r, a') \<Longrightarrow> can_retrieve a \<Longrightarrow> can_retrieve a'"
  by (auto simp: report_for_def Let_def split: sum.splits prod.splits if_splits
      dest: get_mod_data_can_retrieve collect_requirers_can_retrieve)

lemma report_for_total:
  assumes "can_retrieve a"
  shows "\<exists>r a'. report_for env unmet rg k a = Inr (r, a')"
proof -
  from collect_requirers_total [OF assms] obtain ri rm a1 where
    c: "collect_requirers env unmet (graph_get rg k) [] {} a = Inr ((ri, rm), a1)" by fastforce
  from collect_requirers_can_retrieve [OF c assms] have p1: "can_retrieve a1" .
  from get_mod_data_returns [OF p1] obtain d a2 where
    g: "get_mod_data env a1 k = Inr (d, a2)" by blast
  from get_mod_data_can_retrieve [OF g p1] have p2: "can_retrieve a2" .
  from get_mod_data_returns [OF p2] obtain ed a3 where
    "get_mod_data env a2 (get_effective_id a1 k) = Inr (ed, a3)" by blast
  with c g show ?thesis by (simp add: report_for_def Let_def)
qed

lemma build_missing_report_total:
  "can_retrieve a \<Longrightarrow> \<exists>r a'. build_missing_report env unmet rg ids acc a = Inr (r, a')"
proof (induction ids arbitrary: acc a)
  case Nil
  then show ?case by simp
next
  case (Cons k ids)
  from report_for_total [OF Cons.prems] obtain r a1 where
    r: "report_for env unmet rg k a = Inr (r, a1)" by blast
  from report_for_can_retrieve [OF r Cons.prems] have "can_retrieve a1" .
  from Cons.IH [OF this] r show ?case by simp
qed

subsection \<open>The keys of the report\<close>

lemma build_missing_report_keys:
  "build_missing_report env unmet rg ids acc a = Inr (rep, a') \<Longrightarrow> distinct ids \<Longrightarrow>
   set ids \<inter> fst ` set acc = {} \<Longrightarrow> map fst rep = map fst acc @ ids"
proof (induction ids arbitrary: acc a)
  case Nil
  then show ?case by simp
next
  case (Cons k ids)
  from Cons.prems(1) obtain r a1 where
    r: "report_for env unmet rg k a = Inr (r, a1)"
    and rest: "build_missing_report env unmet rg ids (AList.update k r acc) a1 = Inr (rep, a')"
    by (auto split: sum.splits)
  from Cons.prems(2,3) have "set ids \<inter> fst ` set (AList.update k r acc) = {}"
    by (auto simp: dom_update)
  from Cons.IH [OF rest _ this] Cons.prems(2,3) show ?case
    by (auto simp: update_keys)
qed

lemma identify_missing_dependencies_keys:
  assumes "identify_missing_dependencies env a all_nodes rg = Inr (rep, a')"
  shows "map fst rep = sorted_list_of_set (unmet_dependencies a all_nodes)"
proof (cases "unmet_dependencies a all_nodes = {}")
  case True
  with assms show ?thesis by (simp add: identify_missing_dependencies_def)
next
  case False
  with assms have "build_missing_report env (unmet_dependencies a all_nodes) rg
      (sorted_list_of_set (unmet_dependencies a all_nodes)) [] a = Inr (rep, a')"
    by (simp add: identify_missing_dependencies_def Let_def)
  from build_missing_report_keys [OF this] show ?thesis by simp
qed

lemma identify_missing_dependencies_total:
  "can_retrieve a \<Longrightarrow> \<exists>rep a'. identify_missing_dependencies env a all_nodes rg = Inr (rep, a')"
  using build_missing_report_total by (simp add: identify_missing_dependencies_def Let_def)

text \<open>The keys of a result, without the entries and the analyser.\<close>

definition report_keys ::
  "error + (mod_id \<times> report_entry) list \<times> analyzer \<Rightarrow> error + mod_id list" where
  "report_keys r = map_sum id (\<lambda>p. map fst (fst p)) r"

text \<open>An inventory with one folder \<open>A\<close> for mod 1.\<close>

definition one_mod_analyzer :: analyzer where
  "one_mod_analyzer = bare_analyzer\<lparr>folder_to_id := [(''A'', ''1'')],
     id_to_folders := [''1'' \<mapsto> [''A'']], installed_ids := {''1''}\<rparr>"

text \<open>
  Claim C3, as the code has it. The keys of the map returned by
  \<open>_identify_missing_dependencies\<close> are, in ascending order, exactly the visited
  identifiers that are not satisfied and not ignored. So no identifier whose effective
  identifier is installed is a key; in particular an installed identifier is never a key
  unless a replace rule maps it to an identifier that is not installed. With an
  initialised page and a cache whose validity test cannot raise, the analyser returns.
\<close>

theorem missing_report_keys_are_unmet:
  "(page a \<and> cache_readable a \<longrightarrow>
      (\<exists>rep a'. identify_missing_dependencies env a all_nodes rg = Inr (rep, a'))) \<and>
   (finite all_nodes \<and> identify_missing_dependencies env a all_nodes rg = Inr (missing_report, a') \<longrightarrow>
      map fst missing_report =
        sorted_list_of_set {nid \<in> all_nodes. get_effective_id a nid \<notin> installed_ids a \<and>
                                         nid \<notin> ignore_ids a} \<and>
      (\<forall>nid. get_effective_id a nid \<in> installed_ids a \<longrightarrow> nid \<notin> fst ` set missing_report) \<and>
      (\<forall>nid. nid \<in> installed_ids a \<and> replacement_map a nid = None \<longrightarrow>
               nid \<notin> fst ` set missing_report))"
proof (intro conjI impI)
  assume "page a \<and> cache_readable a"
  then have "can_retrieve a" by (simp add: can_retrieve_def)
  then show "\<exists>rep a'. identify_missing_dependencies env a all_nodes rg = Inr (rep, a')"
    by (rule identify_missing_dependencies_total)
next
  assume h: "finite all_nodes \<and>
    identify_missing_dependencies env a all_nodes rg = Inr (missing_report, a')"
  have u: "unmet_dependencies a all_nodes =
      {nid \<in> all_nodes. get_effective_id a nid \<notin> installed_ids a \<and> nid \<notin> ignore_ids a}"
    by (auto simp: unmet_dependencies_def is_dependency_satisfied_def)
  from h identify_missing_dependencies_keys
  have k: "map fst missing_report = sorted_list_of_set (unmet_dependencies a all_nodes)" by blast
  then show "map fst missing_report =
      sorted_list_of_set {nid \<in> all_nodes. get_effective_id a nid \<notin> installed_ids a \<and>
                                       nid \<notin> ignore_ids a}"
    by (simp add: u)
  from h have fin: "finite (unmet_dependencies a all_nodes)" by (simp add: u)
  have keys: "fst ` set missing_report = unmet_dependencies a all_nodes"
    using arg_cong [OF k, of set] fin by simp
  show "\<forall>nid. get_effective_id a nid \<in> installed_ids a \<longrightarrow> nid \<notin> fst ` set missing_report"
    unfolding keys u by simp
  show "\<forall>nid. nid \<in> installed_ids a \<and> replacement_map a nid = None \<longrightarrow>
      nid \<notin> fst ` set missing_report"
    unfolding keys u by (simp add: get_effective_id_def)
qed


theorem missing_report_keys_are_unmet_witness:
  "page one_mod_analyzer \<and> cache_readable one_mod_analyzer \<and> finite {''1'', ''3''} \<and>
   report_keys (identify_missing_dependencies offline_env one_mod_analyzer {''1'', ''3''} []) =
     Inr [''3''] \<and>
   ''1'' \<in> installed_ids one_mod_analyzer \<and> replacement_map one_mod_analyzer ''1'' = None"
proof -
  let ?a = one_mod_analyzer and ?N = "{''1'', ''3''}"
  have pg: "page ?a \<and> cache_readable ?a"
    by (simp add: one_mod_analyzer_def bare_analyzer_def cache_readable_def plain_settings_def
        MAX_DELTA_DAYS_def)
  note inst = missing_report_keys_are_unmet [of ?a offline_env ?N "[]"]
  from inst pg obtain rep a' where
    r: "identify_missing_dependencies offline_env ?a ?N [] = Inr (rep, a')" by blast
  have u: "{nid \<in> ?N. get_effective_id ?a nid \<notin> installed_ids ?a \<and> nid \<notin> ignore_ids ?a} = {''3''}"
    by (auto simp: one_mod_analyzer_def bare_analyzer_def get_effective_id_def)
  from inst [of rep a'] r have "map fst rep = [''3'']"
    unfolding u by simp
  with r pg show ?thesis
    by (simp add: report_keys_def one_mod_analyzer_def bare_analyzer_def)
qed

theorem installed_id_with_uninstalled_replacement_is_reported:
  "''1'' \<in> installed_ids (one_mod_analyzer\<lparr>replacement_map := [''1'' \<mapsto> ''2'']\<rparr>) \<and>
   report_keys (identify_missing_dependencies offline_env
      (one_mod_analyzer\<lparr>replacement_map := [''1'' \<mapsto> ''2'']\<rparr>) {''1''} []) = Inr [''1'']"
proof -
  let ?a = "one_mod_analyzer\<lparr>replacement_map := [''1'' \<mapsto> ''2'']\<rparr>"
  have pg: "can_retrieve ?a"
    by (simp add: one_mod_analyzer_def bare_analyzer_def can_retrieve_def cache_readable_def
        plain_settings_def MAX_DELTA_DAYS_def)
  from identify_missing_dependencies_total [OF pg] obtain rep a' where
    r: "identify_missing_dependencies offline_env ?a {''1''} [] = Inr (rep, a')" by blast
  have u: "unmet_dependencies ?a {''1''} = {''1''}"
    by (auto simp: unmet_dependencies_def is_dependency_satisfied_def get_effective_id_def
        one_mod_analyzer_def bare_analyzer_def)
  from identify_missing_dependencies_keys [OF r] have "map fst rep = [''1'']"
    unfolding u by simp
  with r show ?thesis
    by (simp add: report_keys_def one_mod_analyzer_def bare_analyzer_def)
qed


subsection \<open>The network builder\<close>

text \<open>The local variables of \<open>_build_full_dependency_network\<close>, with the analyser.\<close>

record network_state =
  net_graph :: dep_graph
  net_reverse_graph :: dep_graph
  nodes_to_process :: "mod_id list"
  processed_nodes :: "mod_id set"
  net_self :: analyzer

text \<open>The \<open>for req in ...\<close> loop of one expansion.\<close>

fun add_requirements :: "environment \<Rightarrow> mod_id \<Rightarrow> requirement list \<Rightarrow> network_state \<Rightarrow> network_state" where
  "add_requirements env current_id [] s = s"
| "add_requirements env current_id (req # reqs) s =
     (case extract_mod_id_from_url env (req_url req) of
        None \<Rightarrow> add_requirements env current_id reqs s
      | Some req_id \<Rightarrow>
          let notes = (case req_notes req of None \<Rightarrow> [] | Some n \<Rightarrow> n) in
          add_requirements env current_id reqs
            (s\<lparr>net_graph := graph_append (net_graph s) current_id
                                \<lparr>edge_id = req_id, edge_notes = notes\<rparr>,
               net_reverse_graph := graph_append (net_reverse_graph s) req_id
                                \<lparr>edge_id = current_id, edge_notes = notes\<rparr>,
               nodes_to_process := (if req_id \<notin> processed_nodes s
                                     then nodes_to_process s @ [req_id]
                                     else nodes_to_process s)\<rparr>))"

text \<open>One iteration of the \<open>while nodes_to_process\<close> loop.\<close>

definition bfs_step :: "environment \<Rightarrow> network_state \<Rightarrow> error + network_state" where
  "bfs_step env s =
     (case nodes_to_process s of
        [] \<Rightarrow> Inr s
      | current_id # rest \<Rightarrow>
          if current_id \<in> processed_nodes s then Inr (s\<lparr>nodes_to_process := rest\<rparr>)
          else
            (case get_mod_data env (net_self s) current_id of
               Inl e \<Rightarrow> Inl e
             | Inr (mod_data, a') \<Rightarrow>
                 let s' = s\<lparr>nodes_to_process := rest,
                            processed_nodes := insert current_id (processed_nodes s),
                            net_self := a'\<rparr>
                 in Inr (if md_dependencies mod_data \<noteq> None
                         then add_requirements env current_id (requires_of mod_data) s'
                         else s')))"

partial_function (option) bfs_loop :: "environment \<Rightarrow> network_state \<Rightarrow> (error + network_state) option" where
  "bfs_loop env s =
     (if nodes_to_process s = [] then Some (Inr s)
      else case bfs_step env s of
             Inl e \<Rightarrow> Some (Inl e)
           | Inr s' \<Rightarrow> bfs_loop env s')"

text \<open>\<open>roots\<close> is the order in which \<open>deque(self.installed_ids)\<close> enumerates the set.\<close>

definition initial_network :: "mod_id list \<Rightarrow> analyzer \<Rightarrow> network_state" where
  "initial_network roots a =
     \<lparr>net_graph = [], net_reverse_graph = [], nodes_to_process = roots,
      processed_nodes = {}, net_self = a\<rparr>"

definition build_full_dependency_network ::
  "environment \<Rightarrow> mod_id list \<Rightarrow> analyzer \<Rightarrow>
   (error + (dep_graph \<times> dep_graph \<times> mod_id set) \<times> analyzer) option" where
  "build_full_dependency_network env roots a =
     (case bfs_loop env (initial_network roots a) of
        None \<Rightarrow> None
      | Some (Inl e) \<Rightarrow> Some (Inl e)
      | Some (Inr s) \<Rightarrow>
          Some (Inr ((net_graph s, net_reverse_graph s, processed_nodes s), net_self s)))"

text \<open>The state after \<open>n\<close> iterations of the loop.\<close>

fun bfs_steps :: "nat \<Rightarrow> environment \<Rightarrow> network_state \<Rightarrow> error + network_state" where
  "bfs_steps 0 env s = Inr s"
| "bfs_steps (Suc n) env s =
     (case bfs_step env s of Inl e \<Rightarrow> Inl e | Inr s' \<Rightarrow> bfs_steps n env s')"

text \<open>In state \<open>s\<close> the next iteration takes \<open>x\<close> from the head of the queue.\<close>

definition dequeues :: "network_state \<Rightarrow> mod_id \<Rightarrow> bool" where
  "dequeues s x \<longleftrightarrow> (case nodes_to_process s of [] \<Rightarrow> False
                     | current_id # rest \<Rightarrow> current_id = x)"

text \<open>The iteration from state \<open>s\<close> does nothing but remove the head of the queue: the
  graphs, the visited set and the analyser (its cache and its count of interactions with
  the environment) are as before, so no metadata was retrieved and no edge was added.\<close>

definition only_pops :: "environment \<Rightarrow> network_state \<Rightarrow> bool" where
  "only_pops env s \<longleftrightarrow> bfs_step env s = Inr (s\<lparr>nodes_to_process := tl (nodes_to_process s)\<rparr>)"


definition network_inv :: "mod_id list \<Rightarrow> network_state \<Rightarrow> bool" where
  "network_inv roots s \<longleftrightarrow>
     fst ` set (net_graph s) \<subseteq> processed_nodes s \<and>
     fst ` set (net_reverse_graph s) \<subseteq> processed_nodes s \<union> set (nodes_to_process s) \<and>
     set roots \<subseteq> processed_nodes s \<union> set (nodes_to_process s) \<and>
     processed_nodes s \<union> set (nodes_to_process s) \<subseteq> set roots \<union> fst ` set (net_reverse_graph s)"

lemma graph_append_keys: "fst ` set (graph_append g k e) = insert k (fst ` set g)"
  by (simp add: graph_append_def dom_update)

lemma add_requirements_frame:
  "processed_nodes (add_requirements env c reqs s) = processed_nodes s \<and>
   net_self (add_requirements env c reqs s) = net_self s"
  by (induction reqs arbitrary: s) (auto simp: Let_def split: option.splits)

lemma req_ids_Cons:
  "req_ids env (r # rs) = (case extract_mod_id_from_url env (req_url r) of None \<Rightarrow> req_ids env rs
                       | Some i \<Rightarrow> insert i (req_ids env rs))"
  by (simp add: req_ids_def map_filter_simps split: option.splits)

lemma add_requirements_keys:
  "fst ` set (net_graph (add_requirements env c reqs s)) =
     fst ` set (net_graph s) \<union> (if req_ids env reqs = {} then {} else {c}) \<and>
   fst ` set (net_reverse_graph (add_requirements env c reqs s)) =
     fst ` set (net_reverse_graph s) \<union> req_ids env reqs \<and>
   set (nodes_to_process (add_requirements env c reqs s)) =
     set (nodes_to_process s) \<union> (req_ids env reqs - processed_nodes s)"
proof (induction reqs arbitrary: s)
  case Nil
  then show ?case by simp
next
  case (Cons r rs)
  show ?case
  proof (cases "extract_mod_id_from_url env (req_url r)")
    case None
    with Cons.IH [of s] show ?thesis by (simp add: req_ids_Cons)
  next
    case (Some i)
    let ?n = "case req_notes r of None \<Rightarrow> [] | Some n \<Rightarrow> n"
    let ?s = "s\<lparr>net_graph := graph_append (net_graph s) c \<lparr>edge_id = i, edge_notes = ?n\<rparr>,
               net_reverse_graph := graph_append (net_reverse_graph s) i
                                \<lparr>edge_id = c, edge_notes = ?n\<rparr>,
               nodes_to_process := (if i \<notin> processed_nodes s
                                     then nodes_to_process s @ [i]
                                     else nodes_to_process s)\<rparr>"
    have step: "add_requirements env c (r # rs) s = add_requirements env c rs ?s"
      using Some by (simp add: Let_def)
    from Cons.IH [of ?s] show ?thesis
      unfolding step by (auto simp: req_ids_Cons Some graph_append_keys)
  qed
qed

lemma bfs_step_cases:
  assumes "bfs_step env s = Inr s'" and "nodes_to_process s = c # rest"
  obtains (skip) "c \<in> processed_nodes s" "s' = s\<lparr>nodes_to_process := rest\<rparr>"
  | (expand) d a' where "c \<notin> processed_nodes s"
      "get_mod_data env (net_self s) c = Inr (d, a')"
      "s' = add_requirements env c (requires_of d)
              (s\<lparr>nodes_to_process := rest, processed_nodes := insert c (processed_nodes s),
                 net_self := a'\<rparr>)"
proof (cases "c \<in> processed_nodes s")
  case True
  with assms skip show ?thesis by (simp add: bfs_step_def)
next
  case False
  with assms obtain d a' where g: "get_mod_data env (net_self s) c = Inr (d, a')"
    by (auto simp: bfs_step_def split: sum.splits)
  have "md_dependencies d = None \<Longrightarrow> requires_of d = []"
    by (simp add: requires_of_def)
  with assms False g have "s' = add_requirements env c (requires_of d)
      (s\<lparr>nodes_to_process := rest, processed_nodes := insert c (processed_nodes s),
         net_self := a'\<rparr>)"
    by (auto simp: bfs_step_def Let_def split: if_splits)
  with False g expand show ?thesis by blast
qed

lemma bfs_step_inv:
  assumes "bfs_step env s = Inr s'" and "network_inv roots s"
  shows "network_inv roots s'"
proof (cases "nodes_to_process s")
  case Nil
  with assms show ?thesis by (simp add: bfs_step_def)
next
  case (Cons c rest)
  from assms(1) Cons show ?thesis
  proof (cases rule: bfs_step_cases)
    case skip
    with assms(2) Cons show ?thesis by (auto simp: network_inv_def)
  next
    case (expand d a')
    let ?s = "s\<lparr>nodes_to_process := rest, processed_nodes := insert c (processed_nodes s),
                 net_self := a'\<rparr>"
    note k = add_requirements_keys [of env c "requires_of d" ?s]
      and f = add_requirements_frame [of env c "requires_of d" ?s]
    from assms(2) Cons show ?thesis
      unfolding network_inv_def expand(3)
      by (simp only: k f) (auto split: if_splits)
  qed
qed

lemma initial_network_inv: "network_inv roots (initial_network roots a)"
  by (simp add: network_inv_def initial_network_def)

lemmas bfs_loop_induct = bfs_loop.raw_induct [rotated 1, consumes 1, case_names step]

lemma bfs_loop_invariant:
  assumes step: "\<And>e s s'. I e s \<Longrightarrow> nodes_to_process s \<noteq> [] \<Longrightarrow> bfs_step e s = Inr s' \<Longrightarrow> I e s'"
    and run: "bfs_loop env s = Some r" and init: "I env s"
  shows "\<forall>s'. r = Inr s' \<longrightarrow> I env s' \<and> nodes_to_process s' = []"
  using run init
proof (induction rule: bfs_loop_induct)
  case (step loop e s r)
  show ?case
  proof (cases "nodes_to_process s = []")
    case True
    with step show ?thesis by auto
  next
    case False
    show ?thesis
    proof (cases "bfs_step e s")
      case (Inl err)
      with step False show ?thesis by auto
    next
      case (Inr s1)
      with step(2) False have l: "loop e s1 = Some r" by simp
      from assms(1) [OF step(3) False Inr] have "I e s1" .
      with step(1) l show ?thesis by blast
    qed
  qed
qed

lemma bfs_loop_inv:
  assumes "bfs_loop env s = Some (Inr s')" and "network_inv roots s"
  shows "network_inv roots s' \<and> nodes_to_process s' = []"
  using bfs_loop_invariant [where I = "\<lambda>e. network_inv roots", OF _ assms]
    bfs_step_inv by blast

subsection \<open>Iterations of the loop\<close>

lemma bfs_steps_add:
  "bfs_steps (i + k) env s =
     (case bfs_steps i env s of Inl e \<Rightarrow> Inl e | Inr s' \<Rightarrow> bfs_steps k env s')"
  by (induction i arbitrary: s) (auto split: sum.splits)

lemma bfs_step_processed_mono:
  assumes "bfs_step env s = Inr s'"
  shows "processed_nodes s \<subseteq> processed_nodes s'"
proof (cases "nodes_to_process s")
  case Nil
  with assms show ?thesis by (simp add: bfs_step_def)
next
  case (Cons c rest)
  from assms Cons show ?thesis
    by (cases rule: bfs_step_cases) (auto simp: add_requirements_frame)
qed

lemma bfs_steps_processed_mono:
  "bfs_steps n env s = Inr s' \<Longrightarrow> processed_nodes s \<subseteq> processed_nodes s'"
proof (induction n arbitrary: s)
  case 0
  then show ?case by simp
next
  case (Suc n)
  then obtain s1 where st: "bfs_step env s = Inr s1" and r: "bfs_steps n env s1 = Inr s'"
    by (auto split: sum.splits)
  from bfs_step_processed_mono [OF st] Suc.IH [OF r] show ?case by blast
qed

lemma bfs_step_dequeues:
  assumes "bfs_step env s = Inr s'" and "dequeues s x"
  shows "x \<in> processed_nodes s'"
proof -
  from assms(2) obtain rest where q: "nodes_to_process s = x # rest"
    by (auto simp: dequeues_def split: list.splits)
  from assms(1) q show ?thesis
    by (cases rule: bfs_step_cases) (auto simp: add_requirements_frame)
qed

text \<open>Once an identifier has been at the head of the queue, every later iteration that
  finds it there only removes it.\<close>

lemma later_dequeue_only_pops:
  assumes i: "bfs_steps i env s = Inr si" and j: "bfs_steps j env s = Inr sj"
    and lt: "i < j" and di: "dequeues si x" and dj: "dequeues sj x"
  shows "only_pops env sj"
proof -
  from lt obtain k where k: "j = i + Suc k" by (auto simp: less_iff_Suc_add)
  from j [unfolded k bfs_steps_add] i have "bfs_steps (Suc k) env si = Inr sj" by simp
  then obtain s1 where st: "bfs_step env si = Inr s1" and r: "bfs_steps k env s1 = Inr sj"
    by (auto split: sum.splits)
  from bfs_step_dequeues [OF st di] bfs_steps_processed_mono [OF r]
  have "x \<in> processed_nodes sj" by blast
  with dj show ?thesis
    by (auto simp: dequeues_def only_pops_def bfs_step_def split: list.splits)
qed

text \<open>Every retrieval that returns has interacted with the environment.\<close>

lemma get_mod_data_ticks:
  assumes "get_mod_data env a m = Inr (d, a')"
  shows "tick a < tick a'"
proof (cases "cache_test env a m")
  case (Inl e)
  with assms show ?thesis by (simp add: get_mod_data_cases)
next
  case (Inr r)
  obtain hit a1 where r: "r = (hit, a1)" by (cases r)
  show ?thesis
  proof (cases hit)
    case True
    with assms Inr r have "a' = a1" by (simp add: get_mod_data_cases)
    with Inr r True show ?thesis
      by (auto simp: cache_test_def is_cache_entry_valid_def
          split: option.splits stamp.splits if_splits)
  next
    case False
    with assms Inr r have "fetch_mod_data env a1 m = Inr (d, a')"
      by (simp add: get_mod_data_cases)
    then have "tick a1 < tick a'"
      by (auto simp: fetch_mod_data_def Let_def split: if_splits sum.splits)
    moreover from Inr r have "tick a \<le> tick a1"
      by (auto simp: cache_test_def is_cache_entry_valid_def
          split: option.splits stamp.splits if_splits)
    ultimately show ?thesis by simp
  qed
qed

text \<open>An iteration that does more than remove the head of the queue is the expansion of
  an identifier that was not visited yet: its metadata is retrieved and its edges are
  added.\<close>

lemma bfs_step_expansion:
  assumes st: "bfs_step env s = Inr s'" and dq: "dequeues s x" and np: "\<not> only_pops env s"
  shows "x \<notin> processed_nodes s \<and>
         (\<exists>d a'. get_mod_data env (net_self s) x = Inr (d, a') \<and>
            tick (net_self s) < tick a' \<and>
            s' = add_requirements env x (requires_of d)
                   (s\<lparr>nodes_to_process := tl (nodes_to_process s),
                      processed_nodes := insert x (processed_nodes s), net_self := a'\<rparr>))"
proof -
  from dq obtain rest where q: "nodes_to_process s = x # rest"
    by (auto simp: dequeues_def split: list.splits)
  from st q show ?thesis
  proof (cases rule: bfs_step_cases)
    case skip
    with st q np show ?thesis by (simp add: only_pops_def)
  next
    case (expand d a')
    with q get_mod_data_ticks [OF expand(2)] show ?thesis by auto
  qed
qed

lemma bfs_loop_steps:
  assumes "bfs_loop env s = Some r"
  shows "\<exists>n. bfs_steps n env s = r"
  using assms
proof (induction rule: bfs_loop_induct)
  case (step loop e s r)
  show ?case
  proof (cases "nodes_to_process s = []")
    case True
    with step(2) have "bfs_steps 0 e s = r" by simp
    then show ?thesis ..
  next
    case False
    show ?thesis
    proof (cases "bfs_step e s")
      case (Inl err)
      with step(2) False have "r = Inl err" by simp
      with Inl have "bfs_steps (Suc 0) e s = r" by simp
      then show ?thesis ..
    next
      case (Inr s1)
      with step(2) False have l: "loop e s1 = Some r" by simp
      from step(1) [OF l] obtain n where "bfs_steps n e s1 = r" ..
      with Inr have "bfs_steps (Suc n) e s = r" by simp
      then show ?thesis ..
    qed
  qed
qed


subsection \<open>The loop ends on a finite universe of identifiers\<close>

definition network_bounded ::
  "environment \<Rightarrow> mod_id set \<Rightarrow> mod_id set \<Rightarrow> network_state \<Rightarrow> bool" where
  "network_bounded env W U s \<longleftrightarrow>
     set (nodes_to_process s) \<subseteq> W \<and> cache_within env (net_self s) U \<and>
     can_retrieve (net_self s)"

lemma bfs_step_total:
  assumes "can_retrieve (net_self s)"
  shows "\<exists>s'. bfs_step env s = Inr s'"
proof (cases "nodes_to_process s")
  case Nil
  then show ?thesis by (simp add: bfs_step_def)
next
  case (Cons c rest)
  from get_mod_data_returns [OF assms] obtain d a' where
    "get_mod_data env (net_self s) c = Inr (d, a')" by blast
  with Cons show ?thesis by (simp add: bfs_step_def Let_def)
qed

lemma bfs_step_bounded:
  assumes env: "env_within env U" and sub: "U \<subseteq> W"
    and st: "bfs_step env s = Inr s'" and b: "network_bounded env W U s"
  shows "network_bounded env W U s'"
proof (cases "nodes_to_process s")
  case Nil
  with st b show ?thesis by (simp add: bfs_step_def)
next
  case (Cons c rest)
  from st Cons show ?thesis
  proof (cases rule: bfs_step_cases)
    case skip
    with b Cons show ?thesis by (auto simp: network_bounded_def)
  next
    case (expand d a')
    let ?s = "s\<lparr>nodes_to_process := rest, processed_nodes := insert c (processed_nodes s),
                 net_self := a'\<rparr>"
    from b have cw: "cache_within env (net_self s) U" and pg: "can_retrieve (net_self s)"
      by (simp_all add: network_bounded_def)
    from get_mod_data_within [OF env cw expand(2)]
    have cw': "cache_within env a' U" and ds: "req_ids env (requires_of d) \<subseteq> U" by simp_all
    from get_mod_data_can_retrieve [OF expand(2) pg] have pg': "can_retrieve a'" .
    note k = add_requirements_keys [of env c "requires_of d" ?s]
      and f = add_requirements_frame [of env c "requires_of d" ?s]
    from b Cons cw' pg' ds sub show ?thesis
      unfolding network_bounded_def expand(3)
      by (simp only: k f) auto
  qed
qed

lemma bfs_step_decreases:
  assumes fin: "finite W" and st: "bfs_step env s = Inr s'"
    and q: "nodes_to_process s \<noteq> []" and sub: "set (nodes_to_process s) \<subseteq> W"
  shows "(s', s) \<in> measures [\<lambda>s. card (W - processed_nodes s), \<lambda>s. length (nodes_to_process s)]"
proof -
  from q obtain c rest where Cons: "nodes_to_process s = c # rest"
    by (cases "nodes_to_process s") auto
  from st Cons show ?thesis
  proof (cases rule: bfs_step_cases)
    case skip
    with Cons show ?thesis by simp
  next
    case (expand d a')
    from sub Cons have "c \<in> W" by simp
    with expand(1) fin have "card (W - insert c (processed_nodes s)) < card (W - processed_nodes s)"
      by (intro psubset_card_mono) auto
    then show ?thesis
      unfolding expand(3) by (simp add: add_requirements_frame)
  qed
qed

lemma bfs_loop_returns:
  assumes fin: "finite W" and env: "env_within env U" and sub: "U \<subseteq> W"
  shows "network_bounded env W U s \<Longrightarrow> \<exists>s'. bfs_loop env s = Some (Inr s')"
proof (induction s rule: wf_induct_rule [OF wf_measures
    [of "[\<lambda>s. card (W - processed_nodes s), \<lambda>s. length (nodes_to_process s)]"]])
  case (1 s)
  show ?case
  proof (cases "nodes_to_process s = []")
    case True
    then show ?thesis by (subst bfs_loop.simps) simp
  next
    case False
    from 1(2) have pg: "can_retrieve (net_self s)" and q: "set (nodes_to_process s) \<subseteq> W"
      by (simp_all add: network_bounded_def)
    from bfs_step_total [OF pg] obtain s1 where st: "bfs_step env s = Inr s1" ..
    from 1(1) [OF bfs_step_decreases [OF fin st False q] bfs_step_bounded [OF env sub st 1(2)]]
    obtain s' where "bfs_loop env s1 = Some (Inr s')" ..
    with False st have "bfs_loop env s = Some (Inr s')"
      by (subst bfs_loop.simps) simp
    then show ?thesis ..
  qed
qed

lemma build_full_dependency_network_returns:
  assumes "finite U" "env_within env U" "cache_within env a U" "page a" "cache_readable a"
  shows "\<exists>g rg visited a'. build_full_dependency_network env roots a =
           Some (Inr ((g, rg, visited), a'))"
proof -
  have "network_bounded env (set roots \<union> U) U (initial_network roots a)"
    using assms(3,4,5) by (simp add: network_bounded_def initial_network_def can_retrieve_def)
  from bfs_loop_returns [OF _ assms(2) _ this] assms(1) obtain s' where
    "bfs_loop env (initial_network roots a) = Some (Inr s')" by auto
  then show ?thesis by (simp add: build_full_dependency_network_def)
qed

lemma build_full_dependency_network_result:
  assumes "build_full_dependency_network env roots a = Some (Inr ((g, rg, visited), a'))"
  obtains s where "bfs_loop env (initial_network roots a) = Some (Inr s)"
    "g = net_graph s" "rg = net_reverse_graph s" "visited = processed_nodes s" "a' = net_self s"
  using assms
  by (auto simp: build_full_dependency_network_def split: option.splits sum.splits)

text \<open>
  Claim C7. The network builder returns on a finite universe of identifiers (with an
  initialised page and a cache whose validity test cannot raise). The visited set it
  returns is the union of the keys of the forward adjacency map, the keys of the reverse
  adjacency map and the installed roots. And in the run of the loop (the states after \<open>i\<close>
  and after \<open>j\<close> iterations), once an identifier has been taken from the queue, every
  later iteration that takes it from the queue again only removes it: it retrieves no
  metadata and adds no edge, however many edges point to the identifier. An iteration
  that does more than that is the expansion of an identifier that was not visited yet:
  it retrieves its metadata (which interacts with the environment) and adds its edges.
\<close>

theorem network_visited_set_and_single_expansion:
  "(finite U \<and> env_within env U \<and> cache_within env a U \<and> page a \<and> cache_readable a \<longrightarrow>
      (\<exists>g rg visited a'. build_full_dependency_network env roots a =
          Some (Inr ((g, rg, visited), a')))) \<and>
   (set roots = installed_ids a \<and>
    build_full_dependency_network env roots a = Some (Inr ((g, rg, visited), a')) \<longrightarrow>
      visited = fst ` set g \<union> fst ` set rg \<union> installed_ids a \<and>
      (\<exists>n s. bfs_steps n env (initial_network roots a) = Inr s \<and> nodes_to_process s = [] \<and>
             g = net_graph s \<and> rg = net_reverse_graph s \<and> visited = processed_nodes s)) \<and>
   (bfs_steps i env (initial_network roots a) = Inr si \<and>
    bfs_steps j env (initial_network roots a) = Inr sj \<and> i < j \<and>
    dequeues si x \<and> dequeues sj x \<longrightarrow>
      only_pops env sj) \<and>
   (bfs_step env s = Inr s' \<and> dequeues s y \<and> \<not> only_pops env s \<longrightarrow>
      y \<notin> processed_nodes s \<and>
      (\<exists>d b. get_mod_data env (net_self s) y = Inr (d, b) \<and> tick (net_self s) < tick b \<and>
         s' = add_requirements env y (requires_of d)
                (s\<lparr>nodes_to_process := tl (nodes_to_process s),
                   processed_nodes := insert y (processed_nodes s), net_self := b\<rparr>)))"
proof (intro conjI impI)
  assume "finite U \<and> env_within env U \<and> cache_within env a U \<and> page a \<and> cache_readable a"
  then show "\<exists>g rg visited a'. build_full_dependency_network env roots a =
      Some (Inr ((g, rg, visited), a'))"
    using build_full_dependency_network_returns by blast
next
  assume h: "set roots = installed_ids a \<and>
    build_full_dependency_network env roots a = Some (Inr ((g, rg, visited), a'))"
  then obtain s where l: "bfs_loop env (initial_network roots a) = Some (Inr s)"
    and eqs: "g = net_graph s" "rg = net_reverse_graph s" "visited = processed_nodes s"
    by (auto elim: build_full_dependency_network_result)
  from bfs_loop_inv [OF l initial_network_inv [of roots a]]
  have inv: "network_inv roots s" and q: "nodes_to_process s = []" by simp_all
  from inv q h show "visited = fst ` set g \<union> fst ` set rg \<union> installed_ids a"
    unfolding eqs network_inv_def by auto
  from bfs_loop_steps [OF l] obtain n where "bfs_steps n env (initial_network roots a) = Inr s" ..
  with q eqs show "\<exists>n s. bfs_steps n env (initial_network roots a) = Inr s \<and>
      nodes_to_process s = [] \<and> g = net_graph s \<and> rg = net_reverse_graph s \<and>
      visited = processed_nodes s" by blast
next
  assume "bfs_steps i env (initial_network roots a) = Inr si \<and>
    bfs_steps j env (initial_network roots a) = Inr sj \<and> i < j \<and>
    dequeues si x \<and> dequeues sj x"
  then show "only_pops env sj" using later_dequeue_only_pops by blast
next
  assume h: "bfs_step env s = Inr s' \<and> dequeues s y \<and> \<not> only_pops env s"
  with bfs_step_expansion [of env s s' y] show "y \<notin> processed_nodes s" by blast
  from h bfs_step_expansion [of env s s' y]
  show "\<exists>d b. get_mod_data env (net_self s) y = Inr (d, b) \<and> tick (net_self s) < tick b \<and>
         s' = add_requirements env y (requires_of d)
                (s\<lparr>nodes_to_process := tl (nodes_to_process s),
                   processed_nodes := insert y (processed_nodes s), net_self := b\<rparr>)" by blast
qed

subsection \<open>Example: an installed mod whose page lists mod 2 twice\<close>

definition page_requiring_2_twice :: scraped where
  "page_requiring_2_twice =
     \<lparr>title = Some ''A'', breadcrumb = [''Mods'', ''Utilities''],
      nexus_requirements =
        [\<lparr>link_text = ''B'', href = ''/skyrimspecialedition/mods/2'', notes_cell = None\<rparr>,
         \<lparr>link_text = ''B'', href = ''/skyrimspecialedition/mods/2'', notes_cell = None\<rparr>],
      mods_requiring = []\<rparr>"

definition page_without_requirements :: scraped where
  "page_without_requirements =
     \<lparr>title = Some ''B'', breadcrumb = [''Mods'', ''Utilities''], nexus_requirements = [],
      mods_requiring = []\<rparr>"

text \<open>The page of mod 1 lists mod 2 twice; every other page lists nothing.\<close>

definition env_two_mods :: environment where
  "env_two_mods =
     \<lparr>now = (\<lambda>k. 0),
      visit = (\<lambda>k url. if url = ''https://www.nexusmods.com/skyrimspecialedition/mods/1''
                        then Inr page_requiring_2_twice else Inr page_without_requirements),
      decimal = unicode_decimal\<rparr>"

text \<open>The analyser and the loop state after the first, the second and the third
  iteration from the root 1.\<close>

definition two_mods_self_1 :: analyzer where
  "two_mods_self_1 =
     one_mod_analyzer\<lparr>cache_data := [''1'' \<mapsto> new_entry page_requiring_2_twice 0], tick := 2\<rparr>"

definition two_mods_self_2 :: analyzer where
  "two_mods_self_2 =
     one_mod_analyzer\<lparr>cache_data := [''1'' \<mapsto> new_entry page_requiring_2_twice 0,
                                      ''2'' \<mapsto> new_entry page_without_requirements 0],
                      tick := 4\<rparr>"

definition two_mods_state_1 :: network_state where
  "two_mods_state_1 =
     \<lparr>net_graph = [(''1'', [\<lparr>edge_id = ''2'', edge_notes = []\<rparr>,
                             \<lparr>edge_id = ''2'', edge_notes = []\<rparr>])],
      net_reverse_graph = [(''2'', [\<lparr>edge_id = ''1'', edge_notes = []\<rparr>,
                                     \<lparr>edge_id = ''1'', edge_notes = []\<rparr>])],
      nodes_to_process = [''2'', ''2''], processed_nodes = {''1''},
      net_self = two_mods_self_1\<rparr>"

definition two_mods_state_2 :: network_state where
  "two_mods_state_2 =
     two_mods_state_1\<lparr>nodes_to_process := [''2''], processed_nodes := {''1'', ''2''},
                       net_self := two_mods_self_2\<rparr>"

definition two_mods_state_3 :: network_state where
  "two_mods_state_3 = two_mods_state_2\<lparr>nodes_to_process := []\<rparr>"

lemma md_dependencies_new_entry:
  "md_dependencies (new_entry sc t) =
     Some \<lparr>requires = Some (scrape_dep_section (nexus_requirements sc)),
           required_by = Some (scrape_dep_section (mods_requiring sc))\<rparr>"
  by (simp add: new_entry_def)

lemma requires_page_requiring_2_twice:
  "scrape_dep_section (nexus_requirements page_requiring_2_twice) =
     [\<lparr>req_name = ''B'', req_url = ''https://www.nexusmods.com/skyrimspecialedition/mods/2'',
       req_notes = Some []\<rparr>,
      \<lparr>req_name = ''B'', req_url = ''https://www.nexusmods.com/skyrimspecialedition/mods/2'',
       req_notes = Some []\<rparr>]"
  by (simp add: page_requiring_2_twice_def scrape_dep_section_def NEXUS_BASE_URL_def)

lemma requires_page_without_requirements:
  "scrape_dep_section (nexus_requirements page_without_requirements) = []"
  by (simp add: page_without_requirements_def scrape_dep_section_def)

lemma decimal_env_two_mods: "decimal env_two_mods 50"
  by (simp add: env_two_mods_def unicode_decimal_ascii)

lemma env_two_mods_within: "env_within env_two_mods {''2''}"
  using extract_url_2 [OF decimal_env_two_mods]
  by (auto simp: env_within_def req_ids_iff env_two_mods_def requires_page_requiring_2_twice
      requires_page_without_requirements split: if_splits)

lemma get_mod_data_two_mods_1:
  "get_mod_data env_two_mods one_mod_analyzer ''1'' =
     Inr (new_entry page_requiring_2_twice 0, two_mods_self_1)"
  by (simp add: get_mod_data_def fetch_mod_data_def env_two_mods_def one_mod_analyzer_def
      bare_analyzer_def two_mods_self_1_def mod_url_def NEXUS_BASE_URL_def plain_settings_def
      Let_def)

lemma get_mod_data_two_mods_2:
  "get_mod_data env_two_mods two_mods_self_1 ''2'' =
     Inr (new_entry page_without_requirements 0, two_mods_self_2)"
  by (simp add: get_mod_data_def fetch_mod_data_def env_two_mods_def one_mod_analyzer_def
      bare_analyzer_def two_mods_self_1_def two_mods_self_2_def mod_url_def NEXUS_BASE_URL_def
      plain_settings_def Let_def)

lemma two_mods_step_1:
  "bfs_step env_two_mods (initial_network [''1''] one_mod_analyzer) = Inr two_mods_state_1"
  using extract_url_2 [OF decimal_env_two_mods]
  by (simp add: bfs_step_def initial_network_def get_mod_data_two_mods_1
      md_dependencies_new_entry requires_page_requiring_2_twice two_mods_state_1_def
      graph_append_def graph_get_def Let_def)

lemma two_mods_step_2: "bfs_step env_two_mods two_mods_state_1 = Inr two_mods_state_2"
  by (simp add: bfs_step_def two_mods_state_1_def two_mods_state_2_def get_mod_data_two_mods_2
      md_dependencies_new_entry requires_page_without_requirements Let_def insert_commute)

lemma two_mods_step_3: "bfs_step env_two_mods two_mods_state_2 = Inr two_mods_state_3"
  by (simp add: bfs_step_def two_mods_state_1_def two_mods_state_2_def two_mods_state_3_def)

lemma two_mods_network:
  "build_full_dependency_network env_two_mods [''1''] one_mod_analyzer =
     Some (Inr ((net_graph two_mods_state_1, net_reverse_graph two_mods_state_1, {''1'', ''2''}),
                two_mods_self_2))"
proof -
  let ?s0 = "initial_network [''1''] one_mod_analyzer"
  have q0: "nodes_to_process ?s0 \<noteq> []" by (simp add: initial_network_def)
  have q1: "nodes_to_process two_mods_state_1 \<noteq> []" by (simp add: two_mods_state_1_def)
  have q2: "nodes_to_process two_mods_state_2 \<noteq> []" by (simp add: two_mods_state_2_def)
  have q3: "nodes_to_process two_mods_state_3 = []" by (simp add: two_mods_state_3_def)
  have l3: "bfs_loop env_two_mods two_mods_state_3 = Some (Inr two_mods_state_3)"
    by (subst bfs_loop.simps) (simp add: q3)
  have l2: "bfs_loop env_two_mods two_mods_state_2 = bfs_loop env_two_mods two_mods_state_3"
    by (subst bfs_loop.simps) (simp only: q2 two_mods_step_3 if_False sum.case)
  have l1: "bfs_loop env_two_mods two_mods_state_1 = bfs_loop env_two_mods two_mods_state_2"
    by (subst bfs_loop.simps) (simp only: q1 two_mods_step_2 if_False sum.case)
  have l0: "bfs_loop env_two_mods ?s0 = bfs_loop env_two_mods two_mods_state_1"
    by (subst bfs_loop.simps) (simp only: q0 two_mods_step_1 if_False sum.case)
  have "bfs_loop env_two_mods ?s0 = Some (Inr two_mods_state_3)"
    by (simp only: l0 l1 l2 l3)
  then show ?thesis
    by (simp add: build_full_dependency_network_def two_mods_state_3_def two_mods_state_2_def
        two_mods_state_1_def)
qed

theorem network_visited_set_and_single_expansion_witness:
  "finite {''2''} \<and> env_within env_two_mods {''2''} \<and>
   cache_within env_two_mods one_mod_analyzer {''2''} \<and>
   page one_mod_analyzer \<and> cache_readable one_mod_analyzer \<and>
   set [''1''] = installed_ids one_mod_analyzer \<and>
   build_full_dependency_network env_two_mods [''1''] one_mod_analyzer =
     Some (Inr ((net_graph two_mods_state_1, net_reverse_graph two_mods_state_1, {''1'', ''2''}),
                two_mods_self_2)) \<and>
   {''1'', ''2''} = fst ` set (net_graph two_mods_state_1) \<union>
                    fst ` set (net_reverse_graph two_mods_state_1) \<union>
                    installed_ids one_mod_analyzer \<and>
   bfs_steps 1 env_two_mods (initial_network [''1''] one_mod_analyzer) = Inr two_mods_state_1 \<and>
   bfs_steps 2 env_two_mods (initial_network [''1''] one_mod_analyzer) = Inr two_mods_state_2 \<and>
   (1::nat) < 2 \<and> dequeues two_mods_state_1 ''2'' \<and> dequeues two_mods_state_2 ''2'' \<and>
   only_pops env_two_mods two_mods_state_2 \<and>
   bfs_step env_two_mods two_mods_state_1 = Inr two_mods_state_2 \<and>
   \<not> only_pops env_two_mods two_mods_state_1 \<and>
   ''2'' \<notin> processed_nodes two_mods_state_1 \<and>
   tick (net_self two_mods_state_1) < tick (net_self two_mods_state_2)"
proof -
  let ?s0 = "initial_network [''1''] one_mod_analyzer"
  have fin: "finite {''2''}" by simp
  have cw: "cache_within env_two_mods one_mod_analyzer {''2''}"
    by (simp add: cache_within_def one_mod_analyzer_def bare_analyzer_def)
  have pg: "page one_mod_analyzer" by (simp add: one_mod_analyzer_def bare_analyzer_def)
  have cr: "cache_readable one_mod_analyzer"
    by (simp add: cache_readable_def one_mod_analyzer_def bare_analyzer_def plain_settings_def
        MAX_DELTA_DAYS_def)
  have roots: "set [''1''] = installed_ids one_mod_analyzer"
    by (simp add: one_mod_analyzer_def bare_analyzer_def)
  have s1: "bfs_steps 1 env_two_mods ?s0 = Inr two_mods_state_1"
    by (simp add: two_mods_step_1)
  have s2: "bfs_steps 2 env_two_mods ?s0 = Inr two_mods_state_2"
    by (simp add: numeral_2_eq_2 two_mods_step_1 two_mods_step_2)
  have lt: "(1::nat) < 2" by simp
  have d1: "dequeues two_mods_state_1 ''2''" by (simp add: dequeues_def two_mods_state_1_def)
  have d2: "dequeues two_mods_state_2 ''2''"
    by (simp add: dequeues_def two_mods_state_2_def two_mods_state_1_def)
  have np: "\<not> only_pops env_two_mods two_mods_state_1"
    by (simp add: only_pops_def two_mods_step_2)
      (simp add: two_mods_state_1_def two_mods_state_2_def)
  note inst = network_visited_set_and_single_expansion
    [where U = "{''2''}" and env = env_two_mods and a = one_mod_analyzer
       and roots = "[''1'']" and g = "net_graph two_mods_state_1"
       and rg = "net_reverse_graph two_mods_state_1" and visited = "{''1'', ''2''}"
       and a' = two_mods_self_2
       and i = 1 and j = 2 and si = two_mods_state_1 and sj = two_mods_state_2 and x = "''2''"
       and s = two_mods_state_1 and s' = two_mods_state_2 and y = "''2''"]
  note second = inst [THEN conjunct2, THEN conjunct1, THEN mp, OF conjI [OF roots two_mods_network],
    THEN conjunct1]
  from inst s1 s2 lt d1 d2 have third: "only_pops env_two_mods two_mods_state_2" by blast
  from inst two_mods_step_2 d1 np
  have fourth: "''2'' \<notin> processed_nodes two_mods_state_1" by blast
  have tk: "tick (net_self two_mods_state_1) < tick (net_self two_mods_state_2)"
    by (simp add: two_mods_state_1_def two_mods_state_2_def two_mods_self_1_def
        two_mods_self_2_def)
  show ?thesis
    using fin env_two_mods_within cw pg cr roots two_mods_network second s1 s2 lt d1 d2 third
      two_mods_step_2 np fourth tk
    by (intro conjI)
qed

section \<open>The topological sorter\<close>

subsection \<open>The priority queue\<close>

text \<open>
  \<open>heapq\<close> is Python's standard library, modelled by its contract: the heap is a
  collection of items, \<open>heappush\<close> adds one, \<open>heappop\<close> removes and returns the smallest.
  The items are pairs \<open>(priority, folder)\<close>, compared as Python compares tuples
  (lexicographically, the order of \<open>int \<times> string\<close>).
\<close>

definition heappush :: "'a list \<Rightarrow> 'a \<Rightarrow> 'a list" where
  "heappush h x = h @ [x]"

definition heappop :: "('a::linorder) list \<Rightarrow> ('a \<times> 'a list) option" where
  "heappop h = (case h of [] \<Rightarrow> None
                | x # xs \<Rightarrow> let m = fold min xs x in Some (m, remove1 m h))"

subsection \<open>The induced graph over the local names\<close>

text \<open>\<open>{f: 0 for f in self.folder_to_id}\<close>\<close>

definition zero_degrees :: "(folder \<times> mod_id) list \<Rightarrow> (folder \<times> int) list" where
  "zero_degrees items = fold (\<lambda>f d. AList.update f 0 d) (map fst items) []"

text \<open>\<open>d[k] += n\<close> on a plain dictionary: a missing key raises.\<close>

definition dict_add :: "('k \<times> int) list \<Rightarrow> 'k \<Rightarrow> int \<Rightarrow> error + ('k \<times> int) list" where
  "dict_add d k n = (case map_of d k of None \<Rightarrow> Inl KeyError
                     | Some v \<Rightarrow> Inr (AList.update k (v + n) d))"

type_synonym folder_graph = "(folder \<times> folder list) list"

text \<open>The three nested loops that build \<open>graph\<close> and \<open>in_degree\<close>, innermost first.\<close>

fun add_provider_edges ::
  "folder \<Rightarrow> folder list \<Rightarrow> folder_graph \<times> (folder \<times> int) list \<Rightarrow>
   error + folder_graph \<times> (folder \<times> int) list" where
  "add_provider_edges dep_folder [] (g, d) = Inr (g, d)"
| "add_provider_edges dep_folder (provider_folder # rest) (g, d) =
     (if provider_folder \<in> fst ` set d then
        (case dict_add d dep_folder 1 of
           Inl e \<Rightarrow> Inl e
         | Inr d' \<Rightarrow> add_provider_edges dep_folder rest (graph_append g provider_folder dep_folder, d'))
      else add_provider_edges dep_folder rest (g, d))"

fun add_requirement_edges ::
  "analyzer \<Rightarrow> folder \<Rightarrow> edge_info list \<Rightarrow> folder_graph \<times> (folder \<times> int) list \<Rightarrow>
   error + folder_graph \<times> (folder \<times> int) list" where
  "add_requirement_edges a dep_folder [] gd = Inr gd"
| "add_requirement_edges a dep_folder (req_info # rest) gd =
     (let req_id = edge_id req_info in
      if \<not> is_dependency_satisfied a req_id then add_requirement_edges a dep_folder rest gd
      else
        let actual_provider_id = get_effective_id a req_id in
        (case add_provider_edges dep_folder
                (case id_to_folders a actual_provider_id of None \<Rightarrow> [] | Some fs \<Rightarrow> fs) gd of
           Inl e \<Rightarrow> Inl e
         | Inr gd' \<Rightarrow> add_requirement_edges a dep_folder rest gd'))"

fun build_precedence ::
  "analyzer \<Rightarrow> dep_graph \<Rightarrow> (folder \<times> mod_id) list \<Rightarrow> folder_graph \<times> (folder \<times> int) list \<Rightarrow>
   error + folder_graph \<times> (folder \<times> int) list" where
  "build_precedence a full_graph [] gd = Inr gd"
| "build_precedence a full_graph ((dep_folder, dep_id) # rest) gd =
     (case add_requirement_edges a dep_folder (graph_get full_graph dep_id) gd of
        Inl e \<Rightarrow> Inl e
      | Inr gd' \<Rightarrow> build_precedence a full_graph rest gd')"

definition induced_graph ::
  "analyzer \<Rightarrow> dep_graph \<Rightarrow> error + folder_graph \<times> (folder \<times> int) list" where
  "induced_graph a full_graph =
     build_precedence a full_graph (folder_to_id a) ([], zero_degrees (folder_to_id a))"

subsection \<open>Priorities\<close>

text \<open>\<open>CATEGORY_PRIORITIES.get(mod_data.get("category", "Default"), 50)\<close>\<close>

definition category_priority :: "string \<Rightarrow> int" where
  "category_priority c = (case CATEGORY_PRIORITIES c of None \<Rightarrow> 50 | Some p \<Rightarrow> p)"

definition priority_of_data :: "mod_data \<Rightarrow> error + int" where
  "priority_of_data d =
     (case md_category d of
        NoCategory \<Rightarrow> Inr (category_priority ''Default'')
      | Category c \<Rightarrow> Inr (category_priority c)
      | OtherCategory \<Rightarrow> Inr 50
      | UnhashableCategory \<Rightarrow> Inl TypeError)"

text \<open>The priority of a folder: \<open>self.folder_to_id[folder]\<close>, then its metadata.\<close>

definition get_priority :: "environment \<Rightarrow> analyzer \<Rightarrow> folder \<Rightarrow> error + int \<times> analyzer" where
  "get_priority env a folder_name =
     (case map_of (folder_to_id a) folder_name of
        None \<Rightarrow> Inl KeyError
      | Some mod_id \<Rightarrow>
          (case get_mod_data env a mod_id of
             Inl e \<Rightarrow> Inl e
           | Inr (d, a') \<Rightarrow>
               (case priority_of_data d of
                  Inl e \<Rightarrow> Inl e
                | Inr priority \<Rightarrow> Inr (priority, a'))))"

subsection \<open>Kahn's algorithm\<close>

record sort_state =
  graph :: folder_graph
  in_degree :: "(folder \<times> int) list"
  ready_queue :: "(int \<times> folder) list"
  sorted_order :: "folder list"
  sort_self :: analyzer

text \<open>The loop that fills the ready queue with the folders of in-degree zero.\<close>

fun push_ready ::
  "environment \<Rightarrow> (folder \<times> int) list \<Rightarrow> (int \<times> folder) list \<Rightarrow> analyzer \<Rightarrow>
   error + (int \<times> folder) list \<times> analyzer" where
  "push_ready env [] q a = Inr (q, a)"
| "push_ready env ((folder_name, degree) # rest) q a =
     (if degree = 0 then
        (case get_priority env a folder_name of
           Inl e \<Rightarrow> Inl e
         | Inr (priority, a') \<Rightarrow> push_ready env rest (heappush q (priority, folder_name)) a')
      else push_ready env rest q a)"

text \<open>The \<open>for v_folder in graph.get(u_folder, [])\<close> loop.\<close>

fun relax :: "environment \<Rightarrow> folder list \<Rightarrow> sort_state \<Rightarrow> error + sort_state" where
  "relax env [] s = Inr s"
| "relax env (v_folder # rest) s =
     (case dict_add (in_degree s) v_folder (- 1) of
        Inl e \<Rightarrow> Inl e
      | Inr d' \<Rightarrow>
          if map_of d' v_folder = Some 0 then
            (case get_priority env (sort_self s) v_folder of
               Inl e \<Rightarrow> Inl e
             | Inr (v_prio, a') \<Rightarrow>
                 relax env rest
                   (s\<lparr>in_degree := d', ready_queue := heappush (ready_queue s) (v_prio, v_folder),
                      sort_self := a'\<rparr>))
          else relax env rest (s\<lparr>in_degree := d'\<rparr>))"

text \<open>One iteration of \<open>while ready_queue\<close>.\<close>

definition sort_step :: "environment \<Rightarrow> sort_state \<Rightarrow> error + sort_state" where
  "sort_step env s =
     (case heappop (ready_queue s) of
        None \<Rightarrow> Inr s
      | Some ((prio, u_folder), q') \<Rightarrow>
          relax env (graph_get (graph s) u_folder)
            (s\<lparr>ready_queue := q', sorted_order := sorted_order s @ [u_folder]\<rparr>))"

text \<open>The number of queued folders plus the number of positive in-degrees: it decreases
  with every iteration.\<close>

definition pending :: "sort_state \<Rightarrow> nat" where
  "pending s = length (ready_queue s) + length (filter (\<lambda>(f, d). d > 0) (in_degree s))"

lemma heappop_Some:
  assumes "heappop h = Some (m, h')"
  shows "m \<in> set h \<and> (\<forall>x\<in>set h. m \<le> x) \<and> h' = remove1 m h"
proof -
  from assms obtain x xs where h: "h = x # xs" by (cases h) (auto simp: heappop_def)
  have "fold min xs x = Min (set h)" unfolding h by (rule Min.set_eq_fold [symmetric])
  with assms h have m: "m = Min (set h)" and h': "h' = remove1 m h"
    by (auto simp: heappop_def Let_def)
  from h have "finite (set h)" "set h \<noteq> {}" by simp_all
  then have "Min (set h) \<in> set h" "\<forall>x\<in>set h. Min (set h) \<le> x"
    by (auto intro: Min_in Min_le)
  with m h' show ?thesis by simp
qed

lemma heappop_None: "heappop h = None \<longleftrightarrow> h = []"
  by (cases h) (auto simp: heappop_def Let_def)

lemma positive_update:
  "map_of d k = Some v \<Longrightarrow>
   length (filter (\<lambda>(f, d). d > 0) (AList.update k x d)) + (if v > 0 then 1 else 0) =
   length (filter (\<lambda>(f, d). d > (0::int)) d) + (if x > 0 then 1 else 0)"
  by (induction d) (auto split: if_splits)

lemma relax_pending: "relax env vs s = Inr s' \<Longrightarrow> pending s' \<le> pending s"
proof (induction vs arbitrary: s)
  case Nil
  then show ?case by simp
next
  case (Cons v vs)
  from Cons.prems obtain dv where dv: "map_of (in_degree s) v = Some dv"
    by (auto simp: dict_add_def split: option.splits)
  let ?d = "AList.update v (dv - 1) (in_degree s)"
  have m: "map_of ?d v = Some (dv - 1)" by (simp add: update_conv')
  note pu = positive_update [OF dv, of "dv - 1"]
  show ?case
  proof (cases "dv - 1 = 0")
    case True
    with Cons.prems dv m obtain p a' where
      r: "relax env vs (s\<lparr>in_degree := ?d, ready_queue := heappush (ready_queue s) (p, v),
            sort_self := a'\<rparr>) = Inr s'"
      by (auto simp: dict_add_def split: sum.splits)
    from Cons.IH [OF r] pu True show ?thesis
      by (simp add: pending_def heappush_def split: if_splits)
  next
    case False
    with Cons.prems dv m have r: "relax env vs (s\<lparr>in_degree := ?d\<rparr>) = Inr s'"
      by (auto simp: dict_add_def)
    from Cons.IH [OF r] pu False show ?thesis
      by (simp add: pending_def split: if_splits)
  qed
qed

lemma sort_step_pending:
  assumes "sort_step env s = Inr s'" and "ready_queue s \<noteq> []"
  shows "pending s' < pending s"
proof -
  from assms(2) obtain m q' where pop: "heappop (ready_queue s) = Some (m, q')"
    by (cases "heappop (ready_queue s)") (auto simp: heappop_None)
  obtain p u where m: "m = (p, u)" by (cases m)
  from heappop_Some [OF pop] have "length q' < length (ready_queue s)"
    by (auto simp: length_remove1 intro: diff_less length_pos_if_in_set)
  moreover from assms(1) pop m
  have "relax env (graph_get (graph s) u)
          (s\<lparr>ready_queue := q', sorted_order := sorted_order s @ [u]\<rparr>) = Inr s'"
    by (simp add: sort_step_def)
  from relax_pending [OF this] have "pending s' \<le> length q' +
      length (filter (\<lambda>(f, d). d > 0) (in_degree s))" by (simp add: pending_def)
  ultimately show ?thesis by (simp add: pending_def)
qed

function sort_loop :: "environment \<Rightarrow> sort_state \<Rightarrow> error + sort_state" where
  "sort_loop env s =
     (if ready_queue s = [] then Inr s
      else case sort_step env s of
             Inl e \<Rightarrow> Inl e
           | Inr s' \<Rightarrow> sort_loop env s')"
  by pat_completeness auto
termination
  by (relation "measure (\<lambda>(env, s). pending s)") (auto intro: sort_step_pending)

declare sort_loop.simps [simp del]

text \<open>Lines 639 to 656: the graph, the in-degrees and the first ready queue.\<close>

definition initial_sort_state ::
  "environment \<Rightarrow> analyzer \<Rightarrow> dep_graph \<Rightarrow> error + sort_state" where
  "initial_sort_state env a full_graph =
     (case induced_graph a full_graph of
        Inl e \<Rightarrow> Inl e
      | Inr (g, d) \<Rightarrow>
          (case push_ready env d [] a of
             Inl e \<Rightarrow> Inl e
           | Inr (q, a1) \<Rightarrow>
               Inr \<lparr>graph = g, in_degree = d, ready_queue = q, sorted_order = [],
                    sort_self = a1\<rparr>))"

text \<open>\<open>[f for f, d in in_degree.items() if d > 0]\<close>\<close>

definition cyclic_nodes :: "sort_state \<Rightarrow> folder list" where
  "cyclic_nodes s = map fst (filter (\<lambda>(f, d). d > 0) (in_degree s))"

definition perform_topological_sort ::
  "environment \<Rightarrow> analyzer \<Rightarrow> dep_graph \<Rightarrow> error + (folder list \<times> folder list) \<times> analyzer" where
  "perform_topological_sort env a full_graph =
     (case initial_sort_state env a full_graph of
        Inl e \<Rightarrow> Inl e
      | Inr s0 \<Rightarrow>
          (case sort_loop env s0 of
             Inl e \<Rightarrow> Inl e
           | Inr s \<Rightarrow> Inr ((sorted_order s, cyclic_nodes s), sort_self s)))"

text \<open>The state after \<open>n\<close> iterations of \<open>while ready_queue\<close>.\<close>

fun sort_steps :: "nat \<Rightarrow> environment \<Rightarrow> sort_state \<Rightarrow> error + sort_state" where
  "sort_steps 0 env s = Inr s"
| "sort_steps (Suc n) env s =
     (case sort_step env s of Inl e \<Rightarrow> Inl e | Inr s' \<Rightarrow> sort_steps n env s')"


subsection \<open>Edges and in-degrees of the induced graph\<close>

text \<open>The number of edges from \<open>u\<close> to \<open>v\<close>, and the number of edges into \<open>v\<close> from a set of
  folders.\<close>

definition mult :: "folder_graph \<Rightarrow> folder \<Rightarrow> folder \<Rightarrow> nat" where
  "mult g u v = count_list (graph_get g u) v"

definition indeg_from :: "folder_graph \<Rightarrow> folder set \<Rightarrow> folder \<Rightarrow> nat" where
  "indeg_from g S v = (\<Sum>u\<in>S. mult g u v)"

definition providers :: "analyzer \<Rightarrow> mod_id \<Rightarrow> folder list" where
  "providers a i = (case id_to_folders a i of None \<Rightarrow> [] | Some fs \<Rightarrow> fs)"

text \<open>The precedence edges as the construction describes them: \<open>u\<close> precedes \<open>v\<close> when some
  satisfied requirement of the identifier of \<open>v\<close> is provided by \<open>u\<close>.\<close>

definition precedence_edge :: "analyzer \<Rightarrow> dep_graph \<Rightarrow> folder \<Rightarrow> folder \<Rightarrow> bool" where
  "precedence_edge a full_graph u v \<longleftrightarrow>
     (\<exists>dep_id req. (v, dep_id) \<in> set (folder_to_id a) \<and> req \<in> set (graph_get full_graph dep_id) \<and>
        is_dependency_satisfied a (edge_id req) \<and>
        u \<in> set (providers a (get_effective_id a (edge_id req))) \<and>
        u \<in> fst ` set (folder_to_id a))"

definition degrees_match :: "folder set \<Rightarrow> folder_graph \<Rightarrow> (folder \<times> int) list \<Rightarrow> bool" where
  "degrees_match K g d \<longleftrightarrow>
     fst ` set d = K \<and> distinct (map fst d) \<and>
     (\<forall>v\<in>K. map_of d v = Some (int (indeg_from g K v))) \<and>
     (\<forall>u v. v \<in> set (graph_get g u) \<longrightarrow> u \<in> K \<and> v \<in> K)"

lemma graph_get_append:
  "graph_get (graph_append g p f) u = (if u = p then graph_get g p @ [f] else graph_get g u)"
  by (simp add: graph_get_def graph_append_def update_conv')

lemma mult_append:
  "mult (graph_append g p f) u v = mult g u v + (if u = p \<and> v = f then 1 else 0)"
  by (simp add: mult_def graph_get_append)

lemma indeg_from_append:
  assumes "finite S"
  shows "indeg_from (graph_append g p f) S v = indeg_from g S v + (if p \<in> S \<and> v = f then 1 else 0)"
proof -
  have "(\<Sum>u\<in>S. if u = p \<and> v = f then 1 else 0 :: nat) = (if p \<in> S \<and> v = f then 1 else 0)"
  proof (cases "v = f")
    case True
    then show ?thesis using assms by (simp add: sum.delta)
  next
    case False
    then show ?thesis by simp
  qed
  then show ?thesis by (simp add: indeg_from_def mult_append sum.distrib)
qed

lemma degrees_match_finite: "degrees_match K g d \<Longrightarrow> finite K"
  by (auto simp: degrees_match_def)

lemma degrees_match_add_edge:
  assumes dm: "degrees_match K g d" and p: "p \<in> K" and f: "f \<in> K"
  shows "\<exists>d'. dict_add d f 1 = Inr d' \<and> degrees_match K (graph_append g p f) d'"
proof -
  from dm f have mf: "map_of d f = Some (int (indeg_from g K f))"
    by (simp add: degrees_match_def)
  let ?d = "AList.update f (int (indeg_from g K f) + 1) d"
  have da: "dict_add d f 1 = Inr ?d" using mf by (simp add: dict_add_def)
  note fin = degrees_match_finite [OF dm]
  have "fst ` set ?d = K" using dm f by (auto simp: degrees_match_def dom_update)
  moreover have "distinct (map fst ?d)" using dm by (simp add: degrees_match_def distinct_update)
  moreover have "\<forall>v\<in>K. map_of ?d v = Some (int (indeg_from (graph_append g p f) K v))"
    using dm p by (auto simp: degrees_match_def update_conv' indeg_from_append [OF fin])
  moreover have "\<forall>u v. v \<in> set (graph_get (graph_append g p f) u) \<longrightarrow> u \<in> K \<and> v \<in> K"
    using dm p f by (auto simp: degrees_match_def graph_get_append split: if_splits)
  ultimately have "degrees_match K (graph_append g p f) ?d"
    by (simp add: degrees_match_def)
  with da show ?thesis by blast
qed

lemma add_provider_edges_result:
  assumes "degrees_match K g d" and "f \<in> K"
  shows "\<exists>g' d'. add_provider_edges f ps (g, d) = Inr (g', d') \<and> degrees_match K g' d' \<and>
     (\<forall>u v. v \<in> set (graph_get g' u) \<longleftrightarrow>
        v \<in> set (graph_get g u) \<or> (v = f \<and> u \<in> set ps \<and> u \<in> K))"
  using assms
proof (induction ps arbitrary: g d)
  case Nil
  then show ?case by simp
next
  case (Cons p ps)
  from Cons.prems(1) have keys: "fst ` set d = K" by (simp add: degrees_match_def)
  show ?case
  proof (cases "p \<in> K")
    case True
    from degrees_match_add_edge [OF Cons.prems(1) True Cons.prems(2)] obtain d1 where
      da: "dict_add d f 1 = Inr d1" and dm1: "degrees_match K (graph_append g p f) d1" by blast
    from Cons.IH [OF dm1 Cons.prems(2)] obtain g' d' where
      r: "add_provider_edges f ps (graph_append g p f, d1) = Inr (g', d')"
      and dm': "degrees_match K g' d'"
      and e: "\<forall>u v. v \<in> set (graph_get g' u) \<longleftrightarrow>
        v \<in> set (graph_get (graph_append g p f) u) \<or> (v = f \<and> u \<in> set ps \<and> u \<in> K)" by blast
    have "add_provider_edges f (p # ps) (g, d) = Inr (g', d')"
      using True keys da r by simp
    moreover have "\<forall>u v. v \<in> set (graph_get g' u) \<longleftrightarrow>
        v \<in> set (graph_get g u) \<or> (v = f \<and> u \<in> set (p # ps) \<and> u \<in> K)"
      using e True by (auto simp: graph_get_append split: if_splits)
    ultimately show ?thesis using dm' by blast
  next
    case False
    from Cons.IH [OF Cons.prems] obtain g' d' where
      r: "add_provider_edges f ps (g, d) = Inr (g', d')"
      and dm': "degrees_match K g' d'"
      and e: "\<forall>u v. v \<in> set (graph_get g' u) \<longleftrightarrow>
        v \<in> set (graph_get g u) \<or> (v = f \<and> u \<in> set ps \<and> u \<in> K)" by blast
    have "add_provider_edges f (p # ps) (g, d) = Inr (g', d')"
      using False keys r by simp
    moreover have "\<forall>u v. v \<in> set (graph_get g' u) \<longleftrightarrow>
        v \<in> set (graph_get g u) \<or> (v = f \<and> u \<in> set (p # ps) \<and> u \<in> K)"
      using e False by auto
    ultimately show ?thesis using dm' by blast
  qed
qed

lemma add_requirement_edges_result:
  assumes "degrees_match K g d" and "f \<in> K"
  shows "\<exists>g' d'. add_requirement_edges a f reqs (g, d) = Inr (g', d') \<and> degrees_match K g' d' \<and>
     (\<forall>u v. v \<in> set (graph_get g' u) \<longleftrightarrow>
        v \<in> set (graph_get g u) \<or>
        (v = f \<and> u \<in> K \<and> (\<exists>req\<in>set reqs. is_dependency_satisfied a (edge_id req) \<and>
            u \<in> set (providers a (get_effective_id a (edge_id req))))))"
  using assms
proof (induction reqs arbitrary: g d)
  case Nil
  then show ?case by simp
next
  case (Cons req reqs)
  show ?case
  proof (cases "is_dependency_satisfied a (edge_id req)")
    case False
    from Cons.IH [OF Cons.prems] obtain g' d' where
      r: "add_requirement_edges a f reqs (g, d) = Inr (g', d')"
      and dm': "degrees_match K g' d'"
      and e: "\<forall>u v. v \<in> set (graph_get g' u) \<longleftrightarrow>
        v \<in> set (graph_get g u) \<or>
        (v = f \<and> u \<in> K \<and> (\<exists>req\<in>set reqs. is_dependency_satisfied a (edge_id req) \<and>
            u \<in> set (providers a (get_effective_id a (edge_id req)))))" by blast
    have "add_requirement_edges a f (req # reqs) (g, d) = Inr (g', d')"
      using False r by (simp add: Let_def)
    moreover have "\<forall>u v. v \<in> set (graph_get g' u) \<longleftrightarrow>
        v \<in> set (graph_get g u) \<or>
        (v = f \<and> u \<in> K \<and> (\<exists>req\<in>set (req # reqs). is_dependency_satisfied a (edge_id req) \<and>
            u \<in> set (providers a (get_effective_id a (edge_id req)))))"
      using e False by auto
    ultimately show ?thesis using dm' by blast
  next
    case True
    let ?ps = "providers a (get_effective_id a (edge_id req))"
    from add_provider_edges_result [OF Cons.prems, of ?ps] obtain g1 d1 where
      p: "add_provider_edges f ?ps (g, d) = Inr (g1, d1)" and dm1: "degrees_match K g1 d1"
      and e1: "\<forall>u v. v \<in> set (graph_get g1 u) \<longleftrightarrow>
        v \<in> set (graph_get g u) \<or> (v = f \<and> u \<in> set ?ps \<and> u \<in> K)" by blast
    from Cons.IH [OF dm1 Cons.prems(2)] obtain g' d' where
      r: "add_requirement_edges a f reqs (g1, d1) = Inr (g', d')"
      and dm': "degrees_match K g' d'"
      and e: "\<forall>u v. v \<in> set (graph_get g' u) \<longleftrightarrow>
        v \<in> set (graph_get g1 u) \<or>
        (v = f \<and> u \<in> K \<and> (\<exists>req\<in>set reqs. is_dependency_satisfied a (edge_id req) \<and>
            u \<in> set (providers a (get_effective_id a (edge_id req)))))" by blast
    have "add_requirement_edges a f (req # reqs) (g, d) = Inr (g', d')"
      using True p r by (simp add: Let_def providers_def)
    moreover have "\<forall>u v. v \<in> set (graph_get g' u) \<longleftrightarrow>
        v \<in> set (graph_get g u) \<or>
        (v = f \<and> u \<in> K \<and> (\<exists>req\<in>set (req # reqs). is_dependency_satisfied a (edge_id req) \<and>
            u \<in> set (providers a (get_effective_id a (edge_id req)))))"
      using e e1 True by auto
    ultimately show ?thesis using dm' by blast
  qed
qed

lemma build_precedence_result:
  assumes "degrees_match K g d" and "fst ` set items \<subseteq> K"
  shows "\<exists>g' d'. build_precedence a fg items (g, d) = Inr (g', d') \<and> degrees_match K g' d' \<and>
     (\<forall>u v. v \<in> set (graph_get g' u) \<longleftrightarrow>
        v \<in> set (graph_get g u) \<or>
        (u \<in> K \<and> (\<exists>dep_id req. (v, dep_id) \<in> set items \<and> req \<in> set (graph_get fg dep_id) \<and>
            is_dependency_satisfied a (edge_id req) \<and>
            u \<in> set (providers a (get_effective_id a (edge_id req))))))"
  using assms
proof (induction items arbitrary: g d)
  case Nil
  then show ?case by simp
next
  case (Cons item items)
  obtain f dep_id where item: "item = (f, dep_id)" by (cases item)
  from Cons.prems(2) item have fK: "f \<in> K" and sub: "fst ` set items \<subseteq> K" by auto
  from add_requirement_edges_result [OF Cons.prems(1) fK, of a "graph_get fg dep_id"]
  obtain g1 d1 where
    p: "add_requirement_edges a f (graph_get fg dep_id) (g, d) = Inr (g1, d1)"
    and dm1: "degrees_match K g1 d1"
    and e1: "\<forall>u v. v \<in> set (graph_get g1 u) \<longleftrightarrow>
        v \<in> set (graph_get g u) \<or>
        (v = f \<and> u \<in> K \<and> (\<exists>req\<in>set (graph_get fg dep_id).
            is_dependency_satisfied a (edge_id req) \<and>
            u \<in> set (providers a (get_effective_id a (edge_id req)))))" by blast
  from Cons.IH [OF dm1 sub] obtain g' d' where
    r: "build_precedence a fg items (g1, d1) = Inr (g', d')"
    and dm': "degrees_match K g' d'"
    and e: "\<forall>u v. v \<in> set (graph_get g' u) \<longleftrightarrow>
        v \<in> set (graph_get g1 u) \<or>
        (u \<in> K \<and> (\<exists>dep_id req. (v, dep_id) \<in> set items \<and> req \<in> set (graph_get fg dep_id) \<and>
            is_dependency_satisfied a (edge_id req) \<and>
            u \<in> set (providers a (get_effective_id a (edge_id req)))))" by blast
  have "build_precedence a fg (item # items) (g, d) = Inr (g', d')"
    using item p r by simp
  moreover have "\<forall>u v. v \<in> set (graph_get g' u) \<longleftrightarrow>
        v \<in> set (graph_get g u) \<or>
        (u \<in> K \<and> (\<exists>dep_id req. (v, dep_id) \<in> set (item # items) \<and>
            req \<in> set (graph_get fg dep_id) \<and>
            is_dependency_satisfied a (edge_id req) \<and>
            u \<in> set (providers a (get_effective_id a (edge_id req)))))"
    unfolding item using e e1 by (simp only: set_simps) blast
  ultimately show ?case using dm' by blast
qed

lemma fold_update_zero:
  "distinct (map fst d0) \<Longrightarrow>
   distinct (map fst (fold (\<lambda>f d. AList.update f (0::int) d) ks d0)) \<and>
   fst ` set (fold (\<lambda>f d. AList.update f 0 d) ks d0) = fst ` set d0 \<union> set ks \<and>
   (\<forall>k. map_of (fold (\<lambda>f d. AList.update f 0 d) ks d0) k =
        (if k \<in> set ks then Some 0 else map_of d0 k))"
proof (induction ks arbitrary: d0)
  case Nil
  then show ?case by simp
next
  case (Cons k ks)
  have "distinct (map fst (AList.update k (0::int) d0))"
    using Cons.prems by (simp add: distinct_update)
  from Cons.IH [OF this] show ?case
    by (auto simp: dom_update update_conv')
qed

lemma zero_degrees_match: "degrees_match (fst ` set items) [] (zero_degrees items)"
  using fold_update_zero [of "[]" "map fst items"]
  by (auto simp: degrees_match_def zero_degrees_def graph_get_def indeg_from_def mult_def)

lemma induced_graph_result:
  "\<exists>g d. induced_graph a fg = Inr (g, d) \<and> degrees_match (fst ` set (folder_to_id a)) g d \<and>
     (\<forall>u v. v \<in> set (graph_get g u) \<longleftrightarrow> precedence_edge a fg u v)"
proof -
  let ?K = "fst ` set (folder_to_id a)"
  from build_precedence_result [OF zero_degrees_match subset_refl, of a fg "folder_to_id a"]
  obtain g d where r: "induced_graph a fg = Inr (g, d)" and dm: "degrees_match ?K g d"
    and e: "\<forall>u v. v \<in> set (graph_get g u) \<longleftrightarrow>
        v \<in> set (graph_get [] u) \<or>
        (u \<in> ?K \<and> (\<exists>dep_id req. (v, dep_id) \<in> set (folder_to_id a) \<and>
            req \<in> set (graph_get fg dep_id) \<and>
            is_dependency_satisfied a (edge_id req) \<and>
            u \<in> set (providers a (get_effective_id a (edge_id req)))))"
    unfolding induced_graph_def by blast
  have "\<forall>u v. v \<in> set (graph_get g u) \<longleftrightarrow> precedence_edge a fg u v"
    using e by (simp add: precedence_edge_def graph_get_def) blast
  with r dm show ?thesis by blast
qed

end
